theory Spec2Isabelle
  imports Main "HOL-Library.Word" "HOL-Library.Extended_Nat" "HOL-Library.Sublist"
begin

section \<open>JavaScript strings\<close>

text \<open>
  A JavaScript string is a sequence of 16-bit UTF-16 code units; the regular expressions of
  \<^verbatim>\<open>script.js\<close> carry no \<^verbatim>\<open>u\<close> flag, so they work on code units as well.
  A file is a sequence of bytes.
\<close>

type_synonym cu = "16 word"
type_synonym jsstring = "cu list"
type_synonym bytes = "8 word list"

definition LF :: cu where "LF = 0x0A"
definition CR :: cu where "CR = 0x0D"
definition UNDERSCORE :: cu where "UNDERSCORE = 0x5F"
definition BOM :: cu where "BOM = 0xFEFF"
definition REPLACEMENT :: cu where "REPLACEMENT = 0xFFFD"
definition SEPARATOR :: cu where "SEPARATOR = 0x0001"

text \<open>
  The code units that \<^verbatim>\<open>String.prototype.trim\<close> strips and that \<^verbatim>\<open>\s\<close> matches:
  ECMAScript's WhiteSpace and LineTerminator.
\<close>

definition isWhiteSpace :: "cu \<Rightarrow> bool" where
  "isWhiteSpace c =
     (c = 0x09 \<or> c = 0x0A \<or> c = 0x0B \<or> c = 0x0C \<or> c = 0x0D \<or> c = 0x20 \<or> c = 0xA0
      \<or> c = 0x1680 \<or> (0x2000 \<le> c \<and> c \<le> 0x200A) \<or> c = 0x2028 \<or> c = 0x2029
      \<or> c = 0x202F \<or> c = 0x205F \<or> c = 0x3000 \<or> c = 0xFEFF)"

text \<open>The character class \<^verbatim>\<open>[a-z0-9_]\<close>.\<close>

definition isWordChar :: "cu \<Rightarrow> bool" where
  "isWordChar c = ((0x61 \<le> c \<and> c \<le> 0x7A) \<or> (0x30 \<le> c \<and> c \<le> 0x39) \<or> c = UNDERSCORE)"

text \<open>\<^verbatim>\<open>s.trim()\<close>: white space is removed from both ends.\<close>

definition stripEnd :: "(cu \<Rightarrow> bool) \<Rightarrow> jsstring \<Rightarrow> jsstring" where
  "stripEnd p s = rev (dropWhile p (rev s))"

definition stripBoth :: "(cu \<Rightarrow> bool) \<Rightarrow> jsstring \<Rightarrow> jsstring" where
  "stripBoth p s = stripEnd p (dropWhile p s)"

definition js_trim :: "jsstring \<Rightarrow> jsstring" where
  "js_trim s = stripBoth isWhiteSpace s"

text \<open>
  \<^verbatim>\<open>s.replace(/C+/g, r)\<close> for a character class \<open>C\<close>: scanning from the left, every
  maximal run of code units of the class is replaced by \<open>r\<close>.
\<close>

function replaceRuns :: "(cu \<Rightarrow> bool) \<Rightarrow> jsstring \<Rightarrow> jsstring \<Rightarrow> jsstring" where
  "replaceRuns p r [] = []"
| "replaceRuns p r (c # s) =
     (if p c then r @ replaceRuns p r (dropWhile p s) else c # replaceRuns p r s)"
  by pat_completeness auto
termination
  by (relation "measure (\<lambda>(p, r, s). length s)")
     (auto simp: length_dropWhile_le less_Suc_eq_le)

text \<open>\<^verbatim>\<open>s.replace(/\r\n|\r/g, '\n')\<close>.\<close>

fun normalizeLineEndings :: "jsstring \<Rightarrow> jsstring" where
  "normalizeLineEndings [] = []"
| "normalizeLineEndings (c # s) =
     (if c = CR then
        (case s of
           [] \<Rightarrow> [LF]
         | d # s' \<Rightarrow> if d = LF then LF # normalizeLineEndings s' else LF # normalizeLineEndings s)
      else c # normalizeLineEndings s)"

text \<open>
  \<^verbatim>\<open>s.replace(/^\uFEFF/, '')\<close>, and likewise
  \<^verbatim>\<open>if (s.charCodeAt(0) === 0xfeff) s = s.slice(1)\<close>: one code unit at position 0.
\<close>

fun stripLeadingBOM :: "jsstring \<Rightarrow> jsstring" where
  "stripLeadingBOM [] = []"
| "stripLeadingBOM (c # s) = (if c = BOM then s else c # s)"

text \<open>\<^verbatim>\<open>cells.join(sep)\<close> on an array of strings.\<close>

fun join :: "jsstring \<Rightarrow> jsstring list \<Rightarrow> jsstring" where
  "join sep [] = []"
| "join sep [c] = c"
| "join sep (c # d # cells) = c @ sep @ join sep (d # cells)"

text \<open>\<^verbatim>\<open>(text.match(/\uFFFD/g) || []).length\<close>.\<close>

definition countReplacements :: "jsstring \<Rightarrow> nat" where
  "countReplacements s = length (filter (\<lambda>c. c = REPLACEMENT) s)"

section \<open>Cells, grids and the application state\<close>

text \<open>
  A parsed cell is a string; \<^verbatim>\<open>safeCellText\<close> also accepts \<^verbatim>\<open>null\<close> and
  \<^verbatim>\<open>undefined\<close>. A row is an array of cells and the parsed data an array of rows.
\<close>

datatype jsval = JUndefined | JNull | JString jsstring

type_synonym grid = "jsval list list"
type_synonym rows = "jsstring list list"

fun safeCellText :: "jsval \<Rightarrow> jsstring" where
  "safeCellText JNull = []"
| "safeCellText JUndefined = []"
| "safeCellText (JString s) = s"

record stats =
  removedEmpty :: nat
  duplicatesRemoved :: nat
  trimmedColumns :: nat
  paddedColumns :: nat

record options =
  trim :: bool
  removeEmpty :: bool
  fixColumns :: bool
  dedupe :: bool
  normalizeHeader :: bool

text \<open>The fields of \<^verbatim>\<open>state\<close> that cleaning reads and writes.\<close>

record state =
  originalData :: "grid option"
  cleanedData :: "rows option"
  rowsBefore :: nat
  rowsAfter :: nat
  lastStats :: "stats option"

datatype error =
    NoCsvData           \<comment> \<open>\<^verbatim>\<open>'No CSV data to clean.'\<close>\<close>
  | AllRowsRemoved      \<comment> \<open>\<^verbatim>\<open>'All rows were removed during cleaning. Check your options.'\<close>\<close>
  | TypeError           \<comment> \<open>a property read on \<^verbatim>\<open>undefined\<close>, as \<^verbatim>\<open>rows[0].length\<close> on an empty array\<close>
  | DecodeError         \<comment> \<open>the fallback \<^verbatim>\<open>TextDecoder\<close> threw\<close>
  | ReadError           \<comment> \<open>the \<^verbatim>\<open>FileReader\<close> failed\<close>

text \<open>
  What \<^verbatim>\<open>handleFileChange\<close> leaves in the state when reading and parsing succeeded
  (lines 489-491 and 533-535): the statistics are reset, the parsed rows are stored and
  counted.
\<close>

definition parsedState :: "grid \<Rightarrow> state" where
  "parsedState data =
     \<lparr>originalData = Some data, cleanedData = None, rowsBefore = length data,
      rowsAfter = 0, lastStats = None\<rparr>"

section \<open>Header normalization\<close>

text \<open>
  \<^verbatim>\<open>String.prototype.toLowerCase\<close> follows the Unicode case mappings of the JavaScript
  engine; it is the parameter \<open>toLowerCase\<close> of everything that normalizes a header.
\<close>

definition normalizeHeaderValue :: "(jsstring \<Rightarrow> jsstring) \<Rightarrow> jsval \<Rightarrow> jsstring" where
  "normalizeHeaderValue toLowerCase v =
     (let raw = toLowerCase (js_trim (safeCellText v))
      in if raw = [] then []
         else stripBoth (\<lambda>c. c = UNDERSCORE)
                (replaceRuns (\<lambda>c. c = UNDERSCORE) [UNDERSCORE]
                  (map (\<lambda>c. if isWordChar c then c else UNDERSCORE)
                    (replaceRuns isWhiteSpace [UNDERSCORE] raw))))"

text \<open>No two underscores next to each other: what \<^verbatim>\<open>s.replace(/_+/g, '_')\<close> leaves.\<close>

fun noUnderscoreRun :: "jsstring \<Rightarrow> bool" where
  "noUnderscoreRun (a # b # s) = (\<not> (a = UNDERSCORE \<and> b = UNDERSCORE) \<and> noUnderscoreRun (b # s))"
| "noUnderscoreRun s = True"

section \<open>Cleaning\<close>

text \<open>Step 1 (lines 332-334): a BOM left at the start of the first cell of row 0 is removed.\<close>

fun stripFirstCellBOM :: "grid \<Rightarrow> grid" where
  "stripFirstCellBOM ((JString s # cells) # data) = (JString (stripLeadingBOM s) # cells) # data"
| "stripFirstCellBOM data = data"

text \<open>
  Step 2 (lines 337-364): every cell becomes a string with \<^verbatim>\<open>\n\<close> line endings, trimmed
  when \<open>trim\<close> is on; a row all of whose cells trim to the empty string is dropped and
  counted when \<open>removeEmpty\<close> is on. Every row is an array after the copy
  \<^verbatim>\<open>[...row]\<close> of line 329, so the \<^verbatim>\<open>Array.isArray\<close> guard of line 341 never skips one.
\<close>

definition cleanCell :: "options \<Rightarrow> jsval \<Rightarrow> jsstring" where
  "cleanCell opts cell =
     (let v = normalizeLineEndings (safeCellText cell)
      in if trim opts then js_trim v else v)"

definition isEmptyRow :: "jsstring list \<Rightarrow> bool" where
  "isEmptyRow newRow = list_all (\<lambda>cell. js_trim (safeCellText (JString cell)) = []) newRow"

fun cleanRowsLoop :: "options \<Rightarrow> grid \<Rightarrow> rows \<Rightarrow> stats \<Rightarrow> rows \<times> stats" where
  "cleanRowsLoop opts [] cleanedRows st = (cleanedRows, st)"
| "cleanRowsLoop opts (row # data) cleanedRows st =
     (let newRow = map (cleanCell opts) row
      in if removeEmpty opts \<and> isEmptyRow newRow
         then cleanRowsLoop opts data cleanedRows (st\<lparr>removedEmpty := removedEmpty st + 1\<rparr>)
         else cleanRowsLoop opts data (cleanedRows @ [newRow]) st)"

text \<open>
  Step 3 (lines 371-393): with \<open>fixColumns\<close> on, every row is cut or padded to the length of
  row 0 of \<open>cleanedRows\<close>.
\<close>

fun fixColumnsLoop :: "nat \<Rightarrow> rows \<Rightarrow> rows \<Rightarrow> stats \<Rightarrow> rows \<times> stats" where
  "fixColumnsLoop expectedCols [] finalRows st = (finalRows, st)"
| "fixColumnsLoop expectedCols (row # cleanedRows) finalRows st =
     (if length row = expectedCols
      then fixColumnsLoop expectedCols cleanedRows (finalRows @ [row]) st
      else if length row > expectedCols
      then fixColumnsLoop expectedCols cleanedRows (finalRows @ [take expectedCols row])
             (st\<lparr>trimmedColumns := trimmedColumns st + 1\<rparr>)
      else fixColumnsLoop expectedCols cleanedRows
             (finalRows @ [row @ replicate (expectedCols - length row) []])
             (st\<lparr>paddedColumns := paddedColumns st + 1\<rparr>))"

definition fixColumnCounts :: "options \<Rightarrow> rows \<Rightarrow> stats \<Rightarrow> error + rows \<times> stats" where
  "fixColumnCounts opts cleanedRows st =
     (if fixColumns opts
      then (case cleanedRows of
              [] \<Rightarrow> Inl TypeError
            | row0 # _ \<Rightarrow> Inr (fixColumnsLoop (length row0) cleanedRows [] st))
      else Inr (cleanedRows, st))"

text \<open>Step 4 (lines 396-399): with \<open>normalizeHeader\<close> on, the cells of row 0 are normalized.\<close>

definition normalizeHeaderRow ::
  "(jsstring \<Rightarrow> jsstring) \<Rightarrow> options \<Rightarrow> rows \<Rightarrow> error + rows" where
  "normalizeHeaderRow toLowerCase opts finalRows =
     (if normalizeHeader opts
      then (case finalRows of
              [] \<Rightarrow> Inl TypeError
            | header # others \<Rightarrow>
                Inr (map (\<lambda>cell. normalizeHeaderValue toLowerCase (JString cell)) header # others))
      else Inr finalRows)"

text \<open>
  Step 5 (lines 402-420): with \<open>dedupe\<close> on, the key of a row is its cells joined with
  U+0001; the key of row 0 is put in \<open>seen\<close> first, and a later row is kept only when
  its key is new.
\<close>

definition rowKey :: "jsstring list \<Rightarrow> jsstring" where
  "rowKey row = join [SEPARATOR] row"

fun dedupeLoop :: "rows \<Rightarrow> jsstring set \<Rightarrow> rows \<Rightarrow> stats \<Rightarrow> rows \<times> stats" where
  "dedupeLoop [] seen deduped st = (deduped, st)"
| "dedupeLoop (row # finalRows) seen deduped st =
     (let key = rowKey row
      in if key \<in> seen
         then dedupeLoop finalRows seen deduped (st\<lparr>duplicatesRemoved := duplicatesRemoved st + 1\<rparr>)
         else dedupeLoop finalRows (insert key seen) (deduped @ [row]) st)"

definition dedupeRows :: "options \<Rightarrow> rows \<Rightarrow> stats \<Rightarrow> error + rows \<times> stats" where
  "dedupeRows opts finalRows st =
     (if dedupe opts
      then (case finalRows of
              [] \<Rightarrow> Inl TypeError
            | header # others \<Rightarrow> Inr (dedupeLoop others {rowKey header} [header] st))
      else Inr (finalRows, st))"

text \<open>
  Steps 1 and 2 on the parsed data, and steps 3 and 4 on their result: the rows that
  deduplication receives.
\<close>

definition initialStats :: stats where
  "initialStats = \<lparr>removedEmpty = 0, duplicatesRemoved = 0, trimmedColumns = 0, paddedColumns = 0\<rparr>"

definition cleanedRowsOf :: "options \<Rightarrow> grid \<Rightarrow> rows \<times> stats" where
  "cleanedRowsOf opts original =
     cleanRowsLoop opts (stripFirstCellBOM (map (\<lambda>row. row) original)) [] initialStats"

definition beforeDedupe ::
  "(jsstring \<Rightarrow> jsstring) \<Rightarrow> options \<Rightarrow> rows \<times> stats \<Rightarrow> error + rows \<times> stats" where
  "beforeDedupe toLowerCase opts cleaned =
     (case fixColumnCounts opts (fst cleaned) (snd cleaned) of
        Inl e \<Rightarrow> Inl e
      | Inr (finalRows, st) \<Rightarrow>
          (case normalizeHeaderRow toLowerCase opts finalRows of
             Inl e \<Rightarrow> Inl e
           | Inr finalRows' \<Rightarrow> Inr (finalRows', st)))"

text \<open>
  \<^verbatim>\<open>cleanData\<close> (lines 308-425). The result is the exception thrown, if any, and the
  state the function leaves: the three assignments to \<^verbatim>\<open>state\<close> are its last statements.
\<close>

definition cleanData ::
  "(jsstring \<Rightarrow> jsstring) \<Rightarrow> options \<Rightarrow> state \<Rightarrow> (error + unit) \<times> state" where
  "cleanData toLowerCase opts s =
     (case originalData s of
        None \<Rightarrow> (Inl NoCsvData, s)
      | Some original \<Rightarrow>
          if original = [] then (Inl NoCsvData, s)
          else
            let cleaned = cleanedRowsOf opts original
            in if fst cleaned = [] then (Inl AllRowsRemoved, s)
               else (case beforeDedupe toLowerCase opts cleaned of
                       Inl e \<Rightarrow> (Inl e, s)
                     | Inr (finalRows, st) \<Rightarrow>
                         (case dedupeRows opts finalRows st of
                            Inl e \<Rightarrow> (Inl e, s)
                          | Inr (finalRows', st') \<Rightarrow>
                              (Inr (),
                               s\<lparr>cleanedData := Some finalRows',
                                 rowsAfter := length finalRows',
                                 lastStats := Some st'\<rparr>))))"

section \<open>Encoding detection\<close>

text \<open>
  The platform of \<^verbatim>\<open>readFileWithBestEncoding\<close>: either \<^verbatim>\<open>TextDecoder\<close> is undefined and
  the file is read with \<^verbatim>\<open>FileReader.readAsText\<close>, or \<^verbatim>\<open>new TextDecoder(enc, { fatal: false })\<close>
  gives for a label the decoding of a buffer, \<open>None\<close> when the constructor throws.
\<close>

datatype platform =
    NoTextDecoder "bytes \<Rightarrow> jsstring option"
  | TextDecoder "string \<Rightarrow> bytes \<Rightarrow> jsstring option"

record best =
  text' :: jsstring
  encoding :: string
  replacementCount :: enat

definition encodingsToTry :: "string list" where
  "encodingsToTry = [''utf-8'', ''windows-1252'', ''iso-8859-1'']"

text \<open>The \<^verbatim>\<open>forEach\<close> of lines 180-191; a candidate that throws is skipped.\<close>

fun tryEncodings :: "(string \<Rightarrow> bytes \<Rightarrow> jsstring option) \<Rightarrow> bytes \<Rightarrow> string list \<Rightarrow> best \<Rightarrow> best" where
  "tryEncodings decode buffer [] b = b"
| "tryEncodings decode buffer (enc # encs) b =
     (case decode enc buffer of
        None \<Rightarrow> tryEncodings decode buffer encs b
      | Some t \<Rightarrow>
          if enat (countReplacements t) < replacementCount b
          then tryEncodings decode buffer encs
                 \<lparr>text' = t, encoding = enc, replacementCount = enat (countReplacements t)\<rparr>
          else tryEncodings decode buffer encs b)"

text \<open>
  Lines 173-199. When the text chosen is empty the buffer is decoded again with
  \<^verbatim>\<open>new TextDecoder()\<close>, which is the decoder of the label \<^verbatim>\<open>utf-8\<close>.
\<close>

definition selectBest :: "(string \<Rightarrow> bytes \<Rightarrow> jsstring option) \<Rightarrow> bytes \<Rightarrow> error + best" where
  "selectBest decode buffer =
     (let b = tryEncodings decode buffer encodingsToTry
                \<lparr>text' = [], encoding = ''utf-8'', replacementCount = \<infinity>\<rparr>
      in if text' b = []
         then (case decode ''utf-8'' buffer of
                 None \<Rightarrow> Inl DecodeError
               | Some t \<Rightarrow>
                   Inr (b\<lparr>text' := t, encoding := ''utf-8'',
                          replacementCount := enat (countReplacements t)\<rparr>))
         else Inr b)"

text \<open>Lines 155-209: the choice, then the BOM at position 0 of the chosen text is removed.\<close>

definition readFileWithBestEncoding :: "platform \<Rightarrow> bytes \<Rightarrow> error + best" where
  "readFileWithBestEncoding pf buffer =
     (case pf of
        NoTextDecoder readAsText \<Rightarrow>
          (case readAsText buffer of
             None \<Rightarrow> Inl ReadError
           | Some t \<Rightarrow> Inr \<lparr>text' = t, encoding = ''utf-8'', replacementCount = 0\<rparr>)
      | TextDecoder decode \<Rightarrow>
          (case selectBest decode buffer of
             Inl e \<Rightarrow> Inl e
           | Inr b \<Rightarrow> Inr (b\<lparr>text' := stripLeadingBOM (text' b)\<rparr>)))"

section \<open>A browser to run the code on\<close>

text \<open>
  The theorems below hold for every platform and every \<open>toLowerCase\<close>. To run the code
  on concrete files, this section gives the decoders of the Encoding Standard for the three
  labels, and lower-casing on ASCII letters.

  The UTF-8 decoder keeps the number of continuation bytes still expected, the code point
  read so far and the bounds of the next byte. A byte out of its bounds gives U+FFFD and is
  read again as the start of a sequence.
\<close>

function utf8CodePoints :: "nat \<Rightarrow> nat \<Rightarrow> nat \<Rightarrow> nat \<Rightarrow> bytes \<Rightarrow> nat list" where
  "utf8CodePoints needed cp lower upper [] = (if needed = 0 then [] else [0xFFFD])"
| "utf8CodePoints needed cp lower upper (b # bs) =
     (let n = unat b in
      if needed = 0 then
        (if n \<le> 0x7F then n # utf8CodePoints 0 0 0x80 0xBF bs
         else if 0xC2 \<le> n \<and> n \<le> 0xDF then utf8CodePoints 1 (n mod 32) 0x80 0xBF bs
         else if 0xE0 \<le> n \<and> n \<le> 0xEF then
           utf8CodePoints 2 (n mod 16) (if n = 0xE0 then 0xA0 else 0x80)
             (if n = 0xED then 0x9F else 0xBF) bs
         else if 0xF0 \<le> n \<and> n \<le> 0xF4 then
           utf8CodePoints 3 (n mod 8) (if n = 0xF0 then 0x90 else 0x80)
             (if n = 0xF4 then 0x8F else 0xBF) bs
         else 0xFFFD # utf8CodePoints 0 0 0x80 0xBF bs)
      else if n < lower \<or> upper < n then 0xFFFD # utf8CodePoints 0 0 0x80 0xBF (b # bs)
      else if needed = 1 then (cp * 64 + n mod 64) # utf8CodePoints 0 0 0x80 0xBF bs
      else utf8CodePoints (needed - 1) (cp * 64 + n mod 64) 0x80 0xBF bs)"
  by pat_completeness auto
termination
  by (relation "measure (\<lambda>(needed, cp, lower, upper, bs). 2 * length bs + (if needed = 0 then 0 else 1))")
     auto

text \<open>A code point as UTF-16: one code unit, or a surrogate pair above U+FFFF.\<close>

definition utf16 :: "nat \<Rightarrow> jsstring" where
  "utf16 cp =
     (if cp < 0x10000 then [of_nat cp]
      else [of_nat (0xD800 + (cp - 0x10000) div 1024), of_nat (0xDC00 + (cp - 0x10000) mod 1024)])"

text \<open>\<^verbatim>\<open>ignoreBOM\<close> is false, so the UTF-8 decoder drops a BOM that starts the file.\<close>

definition decodeUtf8 :: "bytes \<Rightarrow> jsstring" where
  "decodeUtf8 buffer =
     concat (map utf16
       (case utf8CodePoints 0 0 0x80 0xBF buffer of
          [] \<Rightarrow> []
        | cp # cps \<Rightarrow> if cp = 0xFEFF then cps else cp # cps))"

text \<open>windows-1252: the bytes 0x80 to 0x9F follow the index, every other byte is its own code point.\<close>

definition index1252 :: "cu list" where
  "index1252 =
     [0x20AC, 0x0081, 0x201A, 0x0192, 0x201E, 0x2026, 0x2020, 0x2021,
      0x02C6, 0x2030, 0x0160, 0x2039, 0x0152, 0x008D, 0x017D, 0x008F,
      0x0090, 0x2018, 0x2019, 0x201C, 0x201D, 0x2022, 0x2013, 0x2014,
      0x02DC, 0x2122, 0x0161, 0x203A, 0x0153, 0x009D, 0x017E, 0x0178]"

definition decode1252 :: "bytes \<Rightarrow> jsstring" where
  "decode1252 buffer =
     map (\<lambda>b. if 0x80 \<le> unat b \<and> unat b \<le> 0x9F then index1252 ! (unat b - 0x80) else ucast b) buffer"

text \<open>The labels \<^verbatim>\<open>windows-1252\<close> and \<^verbatim>\<open>iso-8859-1\<close> name the same encoding.\<close>

definition browserDecode :: "string \<Rightarrow> bytes \<Rightarrow> jsstring option" where
  "browserDecode enc buffer =
     (if enc = ''utf-8'' then Some (decodeUtf8 buffer)
      else if enc = ''windows-1252'' \<or> enc = ''iso-8859-1'' then Some (decode1252 buffer)
      else None)"

definition browser :: platform where
  "browser = TextDecoder browserDecode"

definition asciiLowerCase :: "jsstring \<Rightarrow> jsstring" where
  "asciiLowerCase s = map (\<lambda>c. if 0x41 \<le> c \<and> c \<le> 0x5A then c + 0x20 else c) s"

section \<open>Sample files\<close>

text \<open>ASCII text as a JavaScript string, and a parsed row of ASCII cells.\<close>

definition js :: "string \<Rightarrow> jsstring" where
  "js s = map of_char s"

definition cells :: "string list \<Rightarrow> jsval list" where
  "cells r = map (\<lambda>s. JString (js s)) r"

definition allOn :: options where
  "allOn = \<lparr>trim = True, removeEmpty = True, fixColumns = True, dedupe = True,
             normalizeHeader = True\<rparr>"

definition onlyFixColumns :: options where
  "onlyFixColumns = \<lparr>trim = False, removeEmpty = False, fixColumns = True, dedupe = False,
                      normalizeHeader = False\<rparr>"

definition onlyDedupe :: options where
  "onlyDedupe = \<lparr>trim = False, removeEmpty = False, fixColumns = False, dedupe = True,
                  normalizeHeader = False\<rparr>"

definition roundTripGrid :: grid where
  "roundTripGrid =
     [cells [''Name'', '' Email ''], cells [''Alice'', ''a@x.com''], cells [''  '', ''   ''],
      cells [''Alice'', ''a@x.com'']]"

definition raggedGrid :: grid where
  "raggedGrid = [cells [''a'', ''b'', ''c''], cells [''1'', ''2''], cells [''3'', ''4'', ''5'', ''6'']]"

definition blankGrid :: grid where
  "blankGrid = [cells [''  '', []], cells ['' '']]"

definition repeatedHeaderGrid :: grid where
  "repeatedHeaderGrid = [cells [''x''], cells [''x''], cells [''y''], cells [''x'']]"

definition collisionGrid :: grid where
  "collisionGrid =
     [cells [''k''], cells [''a'', ''b''], [JString (js ''a'' @ [SEPARATOR] @ js ''b'')]]"

section \<open>The loops of cleaning\<close>

text \<open>Each loop as a function of its input, whatever it has accumulated so far.\<close>

lemma cleanRowsLoop_balance:
  "length (fst (cleanRowsLoop opts data acc st)) + removedEmpty (snd (cleanRowsLoop opts data acc st))
     = length acc + removedEmpty st + length data"
  by (induction data arbitrary: acc st) (auto simp: Let_def)

lemma cleanRowsLoop_others:
  "duplicatesRemoved (snd (cleanRowsLoop opts data acc st)) = duplicatesRemoved st \<and>
   trimmedColumns (snd (cleanRowsLoop opts data acc st)) = trimmedColumns st \<and>
   paddedColumns (snd (cleanRowsLoop opts data acc st)) = paddedColumns st"
  by (induction data arbitrary: acc st) (auto simp: Let_def)

lemma cleanRowsLoop_rows:
  "fst (cleanRowsLoop opts data acc st) =
     acc @ filter (\<lambda>newRow. \<not> (removeEmpty opts \<and> isEmptyRow newRow)) (map (map (cleanCell opts)) data)"
  by (induction data arbitrary: acc st) (auto simp: Let_def)

lemma fixColumnsLoop_rows:
  "fst (fixColumnsLoop n rs acc st) =
     acc @ map (\<lambda>row. take n row @ replicate (n - length row) []) rs"
  by (induction rs arbitrary: acc st) auto

lemma fixColumnsLoop_stats:
  "snd (fixColumnsLoop n rs acc st) =
     st\<lparr>trimmedColumns := trimmedColumns st + length (filter (\<lambda>row. n < length row) rs),
        paddedColumns := paddedColumns st + length (filter (\<lambda>row. length row < n) rs)\<rparr>"
  by (induction rs arbitrary: acc st) auto

lemma dedupeLoop_rows:
  "fst (dedupeLoop rs seen acc st) =
     acc @ map ((!) rs)
             (filter (\<lambda>i. rowKey (rs ! i) \<notin> seen \<union> rowKey ` set (take i rs)) [0..<length rs])"
proof (induction rs arbitrary: seen acc st)
  case Nil
  then show ?case by simp
next
  case (Cons r rs)
  have upt: "[0..<Suc (length rs)] = 0 # map Suc [0..<length rs]"
    by (simp add: upt_conv_Cons map_Suc_upt del: upt_Suc)
  show ?case
  proof (cases "rowKey r \<in> seen")
    case True
    then have "\<And>k. (k \<notin> seen \<and> k \<noteq> rowKey r \<and> k \<notin> rowKey ` set (take i rs))
                  = (k \<notin> seen \<and> k \<notin> rowKey ` set (take i rs))" for i
      by auto
    with True show ?thesis
      by (simp add: upt Cons.IH filter_map comp_def Let_def del: upt_Suc)
  next
    case False
    then show ?thesis
      by (simp add: upt Cons.IH filter_map comp_def Let_def conj_left_commute del: upt_Suc)
  qed
qed

lemma dedupeLoop_balance:
  "duplicatesRemoved (snd (dedupeLoop rs seen acc st)) + length (fst (dedupeLoop rs seen acc st))
     = duplicatesRemoved st + length acc + length rs"
  by (induction rs arbitrary: seen acc st) (auto simp: Let_def)

lemma dedupeLoop_others:
  "removedEmpty (snd (dedupeLoop rs seen acc st)) = removedEmpty st \<and>
   trimmedColumns (snd (dedupeLoop rs seen acc st)) = trimmedColumns st \<and>
   paddedColumns (snd (dedupeLoop rs seen acc st)) = paddedColumns st"
  by (induction rs arbitrary: seen acc st) (auto simp: Let_def)

section \<open>The steps of cleaning\<close>

lemma fixColumnCounts_Cons:
  "\<exists>others' st'. fixColumnCounts opts (row0 # others) st = Inr (row0 # others', st')
      \<and> length others' = length others
      \<and> removedEmpty st' = removedEmpty st \<and> duplicatesRemoved st' = duplicatesRemoved st"
proof (cases "fixColumns opts")
  case True
  let ?r = "fixColumnsLoop (length row0) (row0 # others) [] st"
  have "fixColumnCounts opts (row0 # others) st = Inr (fst ?r, snd ?r)"
    using True by (simp add: fixColumnCounts_def)
  moreover have "fst ?r = row0 # map (\<lambda>row. take (length row0) row @ replicate (length row0 - length row) []) others"
    by (simp add: fixColumnsLoop_rows)
  moreover have "removedEmpty (snd ?r) = removedEmpty st" "duplicatesRemoved (snd ?r) = duplicatesRemoved st"
    by (simp_all add: fixColumnsLoop_stats)
  ultimately show ?thesis by (simp add: prod_eq_iff)
next
  case False
  then show ?thesis by (simp add: fixColumnCounts_def)
qed

lemma beforeDedupe_Cons:
  "\<exists>others' st'. beforeDedupe lc opts (row0 # others, st) =
      Inr ((if normalizeHeader opts then map (\<lambda>cell. normalizeHeaderValue lc (JString cell)) row0 else row0)
             # others', st')
      \<and> length others' = length others
      \<and> removedEmpty st' = removedEmpty st \<and> duplicatesRemoved st' = duplicatesRemoved st"
proof -
  obtain others' st' where f: "fixColumnCounts opts (row0 # others) st = Inr (row0 # others', st')"
    and l: "length others' = length others"
    and r: "removedEmpty st' = removedEmpty st" "duplicatesRemoved st' = duplicatesRemoved st"
    using fixColumnCounts_Cons by blast
  show ?thesis
    by (simp add: beforeDedupe_def f normalizeHeaderRow_def l r)
qed

lemma dedupeRows_Cons:
  "\<exists>data st'. dedupeRows opts (header # others) st = Inr (header # data, st')
      \<and> duplicatesRemoved st' + length data = duplicatesRemoved st + length others
      \<and> removedEmpty st' = removedEmpty st"
proof (cases "dedupe opts")
  case True
  have "fst (dedupeLoop others {rowKey header} [header] st) = header # tl (fst (dedupeLoop others {rowKey header} [header] st))"
    by (simp add: dedupeLoop_rows)
  moreover have "duplicatesRemoved (snd (dedupeLoop others {rowKey header} [header] st))
                  + length (tl (fst (dedupeLoop others {rowKey header} [header] st)))
                 = duplicatesRemoved st + length others"
    using dedupeLoop_balance [of others "{rowKey header}" "[header]" st]
    by (simp add: dedupeLoop_rows)
  ultimately show ?thesis
    using True dedupeLoop_others [of others "{rowKey header}" "[header]" st]
    by (auto simp: dedupeRows_def prod_eq_iff)
next
  case False
  then show ?thesis by (simp add: dedupeRows_def)
qed

lemma cleanedRowsOf_balance:
  "length (fst (cleanedRowsOf opts original)) + removedEmpty (snd (cleanedRowsOf opts original))
     = length original"
proof -
  have "length (stripFirstCellBOM original) = length original"
    by (induction original rule: stripFirstCellBOM.induct) auto
  then show ?thesis
    using cleanRowsLoop_balance [of opts "stripFirstCellBOM original" "[]" initialStats]
    by (simp add: cleanedRowsOf_def initialStats_def)
qed

lemma cleanedRowsOf_no_duplicates:
  "duplicatesRemoved (snd (cleanedRowsOf opts original)) = 0"
  by (simp add: cleanedRowsOf_def cleanRowsLoop_others initialStats_def)

text \<open>What a run computes when step 2 leaves a row.\<close>

lemma cleanData_returns:
  assumes "originalData s = Some original"
    and "cleanedRowsOf opts original = (row0 # others, st0)"
  shows "\<exists>header others' st data st'.
           beforeDedupe lc opts (row0 # others, st0) = Inr (header # others', st)
         \<and> dedupeRows opts (header # others') st = Inr (header # data, st')
         \<and> cleanData lc opts s =
             (Inr (), s\<lparr>cleanedData := Some (header # data), rowsAfter := Suc (length data),
                        lastStats := Some st'\<rparr>)"
proof -
  obtain others' st where b: "beforeDedupe lc opts (row0 # others, st0) =
      Inr ((if normalizeHeader opts then map (\<lambda>cell. normalizeHeaderValue lc (JString cell)) row0 else row0)
             # others', st)"
    using beforeDedupe_Cons by blast
  define header where "header = (if normalizeHeader opts then map (\<lambda>cell. normalizeHeaderValue lc (JString cell)) row0 else row0)"
  obtain data st' where d: "dedupeRows opts (header # others') st = Inr (header # data, st')"
    using dedupeRows_Cons by blast
  have ne: "original \<noteq> []"
    using assms(2) by (auto simp: cleanedRowsOf_def)
  have "cleanData lc opts s =
             (Inr (), s\<lparr>cleanedData := Some (header # data), rowsAfter := Suc (length data),
                        lastStats := Some st'\<rparr>)"
    using assms ne b d by (simp add: cleanData_def header_def Let_def)
  with b d show ?thesis unfolding header_def by blast
qed

lemma beforeDedupe_Nil: "beforeDedupe lc opts ([], st0) \<noteq> Inr (header # others, st)"
  by (simp add: beforeDedupe_def fixColumnCounts_def normalizeHeaderRow_def)

lemma beforeDedupe_nonempty:
  assumes "beforeDedupe lc opts cleaned = Inr (header # others, st)"
  obtains row0 others0 where "cleaned = (row0 # others0, snd cleaned)"
proof (cases "fst cleaned")
  case Nil
  then have "cleaned = ([], snd cleaned)" by (simp add: prod_eq_iff)
  with assms beforeDedupe_Nil show ?thesis by metis
next
  case (Cons a list)
  then have "cleaned = (a # list, snd cleaned)" by (simp add: prod_eq_iff)
  then show ?thesis using that by blast
qed

text \<open>A run with \<open>dedupe\<close> on, in terms of the loop of step 5.\<close>

lemma cleanData_dedupe:
  assumes "originalData s = Some original" and "dedupe opts"
    and "beforeDedupe lc opts (cleanedRowsOf opts original) = Inr (header # others, st)"
  shows "cleanData lc opts s =
           (Inr (), s\<lparr>cleanedData := Some (fst (dedupeLoop others {rowKey header} [header] st)),
                      rowsAfter := length (fst (dedupeLoop others {rowKey header} [header] st)),
                      lastStats := Some (snd (dedupeLoop others {rowKey header} [header] st))\<rparr>)"
proof -
  obtain row0 others0 where c: "cleanedRowsOf opts original = (row0 # others0, snd (cleanedRowsOf opts original))"
    using beforeDedupe_nonempty [OF assms(3)] by blast
  then have f: "fst (cleanedRowsOf opts original) \<noteq> []"
    by (metis fst_conv list.distinct(1))
  have ne: "original \<noteq> []"
    using f by (auto simp: cleanedRowsOf_def)
  show ?thesis
    using assms ne f by (simp add: cleanData_def dedupeRows_def Let_def split: prod.splits)
qed

lemma dedupeLoop_counts_seen:
  "rowKey h \<in> seen \<Longrightarrow>
   duplicatesRemoved st + length (filter (\<lambda>row. row = h) rs)
     \<le> duplicatesRemoved (snd (dedupeLoop rs seen acc st))"
proof (induction rs arbitrary: seen acc st)
  case Nil
  then show ?case by simp
next
  case (Cons r rs)
  show ?case
  proof (cases "rowKey r \<in> seen")
    case True
    with Cons.IH [OF Cons.prems, of "st\<lparr>duplicatesRemoved := duplicatesRemoved st + 1\<rparr>" acc]
    show ?thesis by (auto simp: Let_def)
  next
    case False
    then have "r \<noteq> h" using Cons.prems by auto
    moreover have "rowKey h \<in> insert (rowKey r) seen" using Cons.prems by simp
    ultimately show ?thesis
      using False Cons.IH [of "insert (rowKey r) seen" st "acc @ [r]"] by (simp add: Let_def)
  qed
qed

section \<open>Runs on the sample files\<close>

lemmas string_defs = js_def cells_def LF_def CR_def BOM_def UNDERSCORE_def SEPARATOR_def
  isWhiteSpace_def isWordChar_def js_trim_def stripBoth_def stripEnd_def

lemmas step_defs = cleanedRowsOf_def cleanCell_def isEmptyRow_def initialStats_def
  beforeDedupe_def fixColumnCounts_def normalizeHeaderRow_def normalizeHeaderValue_def
  dedupeRows_def rowKey_def asciiLowerCase_def Let_def

lemma roundTrip_cleaned:
  "cleanedRowsOf allOn roundTripGrid =
     ([[js ''Name'', js ''Email''], [js ''Alice'', js ''a@x.com''], [js ''Alice'', js ''a@x.com'']],
      \<lparr>removedEmpty = 1, duplicatesRemoved = 0, trimmedColumns = 0, paddedColumns = 0\<rparr>)"
  by (simp add: roundTripGrid_def allOn_def step_defs string_defs)

lemma roundTrip_beforeDedupe:
  "beforeDedupe asciiLowerCase allOn (cleanedRowsOf allOn roundTripGrid) =
     Inr ([[js ''name'', js ''email''], [js ''Alice'', js ''a@x.com''], [js ''Alice'', js ''a@x.com'']],
      \<lparr>removedEmpty = 1, duplicatesRemoved = 0, trimmedColumns = 0, paddedColumns = 0\<rparr>)"
  by (simp add: roundTrip_cleaned) (simp add: allOn_def step_defs string_defs)

lemma roundTrip_cleanData:
  "cleanData asciiLowerCase allOn (parsedState roundTripGrid) =
     (Inr (),
      (parsedState roundTripGrid)
        \<lparr>cleanedData := Some [[js ''name'', js ''email''], [js ''Alice'', js ''a@x.com'']],
         rowsAfter := 2,
         lastStats := Some \<lparr>removedEmpty = 1, duplicatesRemoved = 1, trimmedColumns = 0,
                             paddedColumns = 0\<rparr>\<rparr>)"
proof -
  have "roundTripGrid \<noteq> []" by (simp add: roundTripGrid_def)
  moreover have "dedupe allOn" by (simp add: allOn_def)
  ultimately show ?thesis
    by (simp add: cleanData_def parsedState_def roundTrip_beforeDedupe Let_def)
       (simp add: roundTrip_cleaned dedupeRows_def rowKey_def string_defs)
qed

lemma blank_cleaned:
  "fst (cleanedRowsOf allOn blankGrid) = []"
  by (simp add: blankGrid_def allOn_def step_defs string_defs)

lemma repeatedHeader_beforeDedupe:
  "beforeDedupe toLowerCase onlyDedupe (cleanedRowsOf onlyDedupe repeatedHeaderGrid) =
     Inr ([[js ''x''], [js ''x''], [js ''y''], [js ''x'']], initialStats)"
  by (simp add: repeatedHeaderGrid_def onlyDedupe_def step_defs string_defs)

lemma repeatedHeader_cleanData:
  "cleanData toLowerCase onlyDedupe (parsedState repeatedHeaderGrid) =
     (Inr (),
      (parsedState repeatedHeaderGrid)
        \<lparr>cleanedData := Some [[js ''x''], [js ''y'']], rowsAfter := 2,
         lastStats := Some \<lparr>removedEmpty = 0, duplicatesRemoved = 2, trimmedColumns = 0,
                             paddedColumns = 0\<rparr>\<rparr>)"
proof -
  have "repeatedHeaderGrid \<noteq> []" by (simp add: repeatedHeaderGrid_def)
  moreover have "dedupe onlyDedupe" by (simp add: onlyDedupe_def)
  moreover have "fst (cleanedRowsOf onlyDedupe repeatedHeaderGrid) \<noteq> []"
    by (simp add: repeatedHeaderGrid_def onlyDedupe_def step_defs string_defs)
  ultimately show ?thesis
    by (simp add: cleanData_def parsedState_def repeatedHeader_beforeDedupe Let_def)
       (simp add: dedupeRows_def rowKey_def initialStats_def string_defs)
qed

section \<open>Row 0 survives\<close>

text \<open>
  C9. When at least one row survives empty-row removal (the guard of line 366 does not
  fire), \<^verbatim>\<open>cleanData\<close> returns: no read of row 0 in the later steps fails. The cleaned
  grid is not empty, and its first row is the first surviving row, normalized when
  \<open>normalizeHeader\<close> is on: neither column reconciliation nor deduplication removes or
  changes it.
\<close>

theorem cleanData_keeps_header:
  assumes "originalData s = Some original"
    and "fst (cleanedRowsOf opts original) = row0 # others"
  shows "\<exists>data st.
           cleanData toLowerCase opts s =
             (Inr (),
              s\<lparr>cleanedData :=
                   Some ((if normalizeHeader opts
                          then map (\<lambda>cell. normalizeHeaderValue toLowerCase (JString cell)) row0
                          else row0) # data),
                 rowsAfter := Suc (length data), lastStats := Some st\<rparr>)"
proof -
  have c: "cleanedRowsOf opts original = (row0 # others, snd (cleanedRowsOf opts original))"
    using assms(2) by (simp add: prod_eq_iff)
  obtain header others' st data st' where
    b: "beforeDedupe toLowerCase opts (row0 # others, snd (cleanedRowsOf opts original))
          = Inr (header # others', st)"
    and r: "cleanData toLowerCase opts s =
             (Inr (), s\<lparr>cleanedData := Some (header # data), rowsAfter := Suc (length data),
                        lastStats := Some st'\<rparr>)"
    using cleanData_returns [OF assms(1) c] by blast
  have "header = (if normalizeHeader opts
                  then map (\<lambda>cell. normalizeHeaderValue toLowerCase (JString cell)) row0 else row0)"
    using b beforeDedupe_Cons [of toLowerCase opts row0 others "snd (cleanedRowsOf opts original)"]
    by auto
  with r show ?thesis by blast
qed

theorem cleanData_keeps_header_witness:
  "\<exists>data st.
     cleanData asciiLowerCase allOn (parsedState roundTripGrid) =
       (Inr (),
        (parsedState roundTripGrid)
          \<lparr>cleanedData := Some ([js ''name'', js ''email''] # data),
           rowsAfter := Suc (length data), lastStats := Some st\<rparr>)"
proof -
  have h1: "originalData (parsedState roundTripGrid) = Some roundTripGrid"
    by (simp add: parsedState_def)
  have h2: "fst (cleanedRowsOf allOn roundTripGrid) =
              [js ''Name'', js ''Email''] # [[js ''Alice'', js ''a@x.com''], [js ''Alice'', js ''a@x.com'']]"
    by (simp add: roundTrip_cleaned)
  have n: "normalizeHeader allOn" by (simp add: allOn_def)
  have "map (\<lambda>cell. normalizeHeaderValue asciiLowerCase (JString cell)) [js ''Name'', js ''Email'']
          = [js ''name'', js ''email'']"
    by (simp add: normalizeHeaderValue_def asciiLowerCase_def string_defs)
  with cleanData_keeps_header [OF h1 h2, of asciiLowerCase] n show ?thesis
    by simp
qed

section \<open>All rows removed\<close>

lemma cleanRowsLoop_later_toggles:
  "cleanRowsLoop (opts\<lparr>fixColumns := a, dedupe := b, normalizeHeader := c\<rparr>) data acc st
     = cleanRowsLoop opts data acc st"
proof -
  have "cleanCell (opts\<lparr>fixColumns := a, dedupe := b, normalizeHeader := c\<rparr>) = cleanCell opts"
    by (rule ext) (simp add: cleanCell_def)
  then show ?thesis
    by (induction data arbitrary: acc st) (simp_all add: Let_def)
qed

lemma length_stripFirstCellBOM: "length (stripFirstCellBOM data) = length data"
  by (induction data rule: stripFirstCellBOM.induct) auto

text \<open>
  C6. On a parsed grid (which has a row), \<^verbatim>\<open>cleanData\<close> throws the all-rows-removed
  error exactly when step 2 leaves no row, that is when \<open>removeEmpty\<close> is on and every
  row is empty. Then it throws whatever the toggles of the later steps are, those steps
  not being reached; and whenever \<^verbatim>\<open>cleanData\<close> throws, the state, with the cleaned
  grid and statistics of an earlier run, is as it was.
\<close>

theorem cleanData_all_rows_removed:
  assumes "originalData s = Some original" and "original \<noteq> []"
  shows "(fst (cleanData toLowerCase opts s) = Inl AllRowsRemoved
            \<longleftrightarrow> fst (cleanedRowsOf opts original) = [])
       \<and> (fst (cleanedRowsOf opts original) = []
            \<longleftrightarrow> removeEmpty opts
                \<and> (\<forall>row \<in> set (stripFirstCellBOM original). isEmptyRow (map (cleanCell opts) row)))
       \<and> (fst (cleanedRowsOf opts original) = []
            \<longrightarrow> (\<forall>a b c. cleanData toLowerCase (opts\<lparr>fixColumns := a, dedupe := b, normalizeHeader := c\<rparr>) s
                           = (Inl AllRowsRemoved, s)))
       \<and> (\<forall>e. fst (cleanData toLowerCase opts s) = Inl e \<longrightarrow> snd (cleanData toLowerCase opts s) = s)"
proof -
  have toggles: "cleanedRowsOf (opts\<lparr>fixColumns := a, dedupe := b, normalizeHeader := c\<rparr>) original
                   = cleanedRowsOf opts original" for a b c
    by (simp add: cleanedRowsOf_def cleanRowsLoop_later_toggles)
  have later: "fst (cleanedRowsOf opts original) = []
            \<longrightarrow> (\<forall>a b c. cleanData toLowerCase (opts\<lparr>fixColumns := a, dedupe := b, normalizeHeader := c\<rparr>) s
                           = (Inl AllRowsRemoved, s))"
    using assms by (simp add: cleanData_def toggles)
  have "stripFirstCellBOM original \<noteq> []"
    using assms(2) length_stripFirstCellBOM [of original] by (metis length_0_conv)
  then have empty: "fst (cleanedRowsOf opts original) = []
            \<longleftrightarrow> removeEmpty opts
                \<and> (\<forall>row \<in> set (stripFirstCellBOM original). isEmptyRow (map (cleanCell opts) row))"
    by (auto simp: cleanedRowsOf_def cleanRowsLoop_rows filter_empty_conv neq_Nil_conv)
  have thrown: "(fst (cleanData toLowerCase opts s) = Inl AllRowsRemoved
            \<longleftrightarrow> fst (cleanedRowsOf opts original) = [])
       \<and> (\<forall>e. fst (cleanData toLowerCase opts s) = Inl e \<longrightarrow> snd (cleanData toLowerCase opts s) = s)"
  proof (cases "fst (cleanedRowsOf opts original)")
    case Nil
    then show ?thesis
      using assms by (simp add: cleanData_def)
  next
    case (Cons row0 others)
    then obtain data st where
      "cleanData toLowerCase opts s =
         (Inr (), s\<lparr>cleanedData := Some ((if normalizeHeader opts
                          then map (\<lambda>cell. normalizeHeaderValue toLowerCase (JString cell)) row0
                          else row0) # data),
                    rowsAfter := Suc (length data), lastStats := Some st\<rparr>)"
      using cleanData_returns [OF assms(1), of opts row0 others "snd (cleanedRowsOf opts original)" toLowerCase]
        beforeDedupe_Cons [of toLowerCase opts row0 others "snd (cleanedRowsOf opts original)"]
      by (auto simp: prod_eq_iff)
    with Cons show ?thesis by simp
  qed
  from thrown empty later show ?thesis by blast
qed

theorem cleanData_all_rows_removed_witness:
  "cleanData asciiLowerCase allOn
     ((parsedState blankGrid)\<lparr>cleanedData := Some [[js ''old'']], rowsAfter := 1,
        lastStats := Some initialStats\<rparr>)
   = (Inl AllRowsRemoved,
      (parsedState blankGrid)\<lparr>cleanedData := Some [[js ''old'']], rowsAfter := 1,
        lastStats := Some initialStats\<rparr>)"
proof -
  let ?s = "(parsedState blankGrid)\<lparr>cleanedData := Some [[js ''old'']], rowsAfter := 1,
        lastStats := Some initialStats\<rparr>"
  have h1: "originalData ?s = Some blankGrid"
    by (simp add: parsedState_def)
  have h2: "blankGrid \<noteq> []"
    by (simp add: blankGrid_def)
  have "allOn\<lparr>fixColumns := True, dedupe := True, normalizeHeader := True\<rparr> = allOn"
    by (simp add: allOn_def)
  with cleanData_all_rows_removed [OF h1 h2, of asciiLowerCase allOn] blank_cleaned
  show ?thesis by metis
qed

section \<open>Every row is accounted for\<close>

text \<open>
  C5. When \<^verbatim>\<open>cleanData\<close> returns, on a state whose \<open>rowsBefore\<close> is the number of parsed
  rows, \<open>rowsBefore - rowsAfter = removedEmpty + duplicatesRemoved\<close>: \<open>removedEmpty\<close> is
  the number of rows that step 2 dropped, \<open>duplicatesRemoved\<close> the number that step 5
  dropped, and the other rows make the cleaned grid.
\<close>

theorem cleanData_row_balance:
  assumes "originalData s = Some original" and "rowsBefore s = length original"
    and "cleanData toLowerCase opts s = (Inr (), s')"
  shows "\<exists>data st.
           cleanedData s' = Some data \<and> lastStats s' = Some st
         \<and> rowsBefore s' = length original \<and> rowsAfter s' = length data
         \<and> rowsBefore s' = rowsAfter s' + removedEmpty st + duplicatesRemoved st
         \<and> rowsBefore s' - rowsAfter s' = removedEmpty st + duplicatesRemoved st
         \<and> removedEmpty st = length original - length (fst (cleanedRowsOf opts original))
         \<and> duplicatesRemoved st = length (fst (cleanedRowsOf opts original)) - length data
         \<and> length data \<le> length (fst (cleanedRowsOf opts original))
         \<and> length (fst (cleanedRowsOf opts original)) \<le> length original"
proof (cases "fst (cleanedRowsOf opts original)")
  case Nil
  then show ?thesis
    using assms by (simp add: cleanData_def split: if_splits)
next
  case (Cons row0 others)
  let ?st0 = "snd (cleanedRowsOf opts original)"
  have c: "cleanedRowsOf opts original = (row0 # others, ?st0)"
    using Cons by (simp add: prod_eq_iff)
  obtain header others' st data st' where
    b: "beforeDedupe toLowerCase opts (row0 # others, ?st0) = Inr (header # others', st)"
    and d: "dedupeRows opts (header # others') st = Inr (header # data, st')"
    and r: "cleanData toLowerCase opts s =
             (Inr (), s\<lparr>cleanedData := Some (header # data), rowsAfter := Suc (length data),
                        lastStats := Some st'\<rparr>)"
    using cleanData_returns [OF assms(1) c] by blast
  have b': "length others' = length others" "removedEmpty st = removedEmpty ?st0"
      "duplicatesRemoved st = duplicatesRemoved ?st0"
    using b beforeDedupe_Cons [of toLowerCase opts row0 others ?st0] by auto
  have d': "duplicatesRemoved st' + length data = duplicatesRemoved st + length others'"
      "removedEmpty st' = removedEmpty st"
    using d dedupeRows_Cons [of opts header others' st] by auto
  have e: "Suc (length others) + removedEmpty ?st0 = length original"
    using cleanedRowsOf_balance [of opts original] Cons by simp
  have z: "duplicatesRemoved ?st0 = 0"
    by (rule cleanedRowsOf_no_duplicates)
  have s': "s' = s\<lparr>cleanedData := Some (header # data), rowsAfter := Suc (length data),
                        lastStats := Some st'\<rparr>"
    using r assms(3) by simp
  show ?thesis
    using b' d' e z assms(2) Cons by (simp add: s', arith)
qed

theorem cleanData_row_balance_witness:
  "rowsBefore (snd (cleanData asciiLowerCase allOn (parsedState roundTripGrid))) = 4
   \<and> rowsAfter (snd (cleanData asciiLowerCase allOn (parsedState roundTripGrid))) = 2
   \<and> (\<exists>st. lastStats (snd (cleanData asciiLowerCase allOn (parsedState roundTripGrid))) = Some st
          \<and> removedEmpty st + duplicatesRemoved st = 2)"
proof -
  let ?s' = "snd (cleanData asciiLowerCase allOn (parsedState roundTripGrid))"
  have h1: "originalData (parsedState roundTripGrid) = Some roundTripGrid"
    and h2: "rowsBefore (parsedState roundTripGrid) = length roundTripGrid"
    by (simp_all add: parsedState_def)
  have h3: "cleanData asciiLowerCase allOn (parsedState roundTripGrid) = (Inr (), ?s')"
    by (simp add: roundTrip_cleanData)
  have "length roundTripGrid = 4" by (simp add: roundTripGrid_def)
  moreover have "rowsAfter ?s' = 2" by (simp add: roundTrip_cleanData)
  ultimately show ?thesis
    using cleanData_row_balance [OF h1 h2 h3] by auto
qed

section \<open>Deduplication and the header\<close>

text \<open>
  C1. With \<open>dedupe\<close> on, the key of row 0 is in the seen-set before rows 1 to the end are
  scanned. So when the earlier steps give \<open>header # others\<close>, no row of the cleaned grid
  after row 0 is equal to \<open>header\<close>, and every row of \<open>others\<close> equal to \<open>header\<close>, the
  first one too, is counted in \<open>duplicatesRemoved\<close>.
\<close>

theorem header_copies_dropped:
  assumes "originalData s = Some original" and "dedupe opts"
    and "beforeDedupe toLowerCase opts (cleanedRowsOf opts original) = Inr (header # others, st)"
  shows "\<exists>data st'.
           cleanData toLowerCase opts s =
             (Inr (), s\<lparr>cleanedData := Some (header # data), rowsAfter := Suc (length data),
                        lastStats := Some st'\<rparr>)
         \<and> header \<notin> set data
         \<and> length (filter (\<lambda>row. row = header) others) \<le> duplicatesRemoved st'"
proof -
  let ?kept = "filter (\<lambda>i. rowKey (others ! i) \<notin> {rowKey header} \<union> rowKey ` set (take i others))
                 [0..<length others]"
  let ?r = "dedupeLoop others {rowKey header} [header] st"
  have rows: "fst ?r = header # map ((!) others) ?kept"
    by (simp add: dedupeLoop_rows)
  have "header \<notin> set (map ((!) others) ?kept)"
    by auto
  moreover have "length (filter (\<lambda>row. row = header) others) \<le> duplicatesRemoved (snd ?r)"
    using dedupeLoop_counts_seen [of header "{rowKey header}" st others "[header]"] by simp
  moreover have "cleanData toLowerCase opts s =
      (Inr (), s\<lparr>cleanedData := Some (header # map ((!) others) ?kept),
                 rowsAfter := Suc (length (map ((!) others) ?kept)), lastStats := Some (snd ?r)\<rparr>)"
    using cleanData_dedupe [OF assms] rows by simp
  ultimately show ?thesis by blast
qed

theorem header_copies_dropped_witness:
  "\<exists>data st'.
     cleanData asciiLowerCase onlyDedupe (parsedState repeatedHeaderGrid) =
       (Inr (), (parsedState repeatedHeaderGrid)
                  \<lparr>cleanedData := Some ([js ''x''] # data), rowsAfter := Suc (length data),
                   lastStats := Some st'\<rparr>)
     \<and> [js ''x''] \<notin> set data \<and> 2 \<le> duplicatesRemoved st'"
proof -
  have h1: "originalData (parsedState repeatedHeaderGrid) = Some repeatedHeaderGrid"
    by (simp add: parsedState_def)
  have h2: "dedupe onlyDedupe" by (simp add: onlyDedupe_def)
  have "length (filter (\<lambda>row. row = [js ''x'']) [[js ''x''], [js ''y''], [js ''x'']]) = 2"
    by (simp add: js_def)
  with header_copies_dropped [OF h1 h2 repeatedHeader_beforeDedupe, where toLowerCase = asciiLowerCase]
  show ?thesis by (simp add: js_def numeral_2_eq_2)
qed

section \<open>Column reconciliation\<close>

lemma cleanData_stages:
  assumes "originalData s = Some original"
    and "cleanedRowsOf opts original = (row0 # others, st0)"
    and "fixColumnCounts opts (row0 # others) st0 = Inr (finalRows, st1)"
    and "normalizeHeaderRow lc opts finalRows = Inr finalRows'"
    and "dedupeRows opts finalRows' st1 = Inr (data, st)"
  shows "cleanData lc opts s =
           (Inr (), s\<lparr>cleanedData := Some data, rowsAfter := length data, lastStats := Some st\<rparr>)"
proof -
  have "original \<noteq> []"
    using assms(2) by (auto simp: cleanedRowsOf_def)
  then show ?thesis
    using assms by (simp add: cleanData_def beforeDedupe_def Let_def)
qed

lemma dedupeRows_subset:
  assumes "dedupeRows opts finalRows st = Inr (data, st')"
  shows "set data \<subseteq> set finalRows \<and> trimmedColumns st' = trimmedColumns st
         \<and> paddedColumns st' = paddedColumns st"
proof (cases "dedupe opts")
  case True
  then obtain header others where f: "finalRows = header # others"
    using assms by (cases finalRows) (auto simp: dedupeRows_def)
  let ?r = "dedupeLoop others {rowKey header} [header] st"
  have r: "data = fst ?r" "st' = snd ?r"
    using assms True f by (simp_all add: dedupeRows_def)
  have "set (fst ?r) \<subseteq> set (header # others)"
    by (auto simp: dedupeLoop_rows)
  then show ?thesis
    using r f dedupeLoop_others [of others "{rowKey header}" "[header]" st] by simp
next
  case False
  then show ?thesis using assms by (simp add: dedupeRows_def)
qed

lemma length_partition3:
  "length (filter (\<lambda>row. n < length row) rs) + length (filter (\<lambda>row. length row < n) rs)
     + length (filter (\<lambda>row. length row = n) rs) = length rs"
  by (induction rs) auto

lemma cleanedRowsOf_no_column_stats:
  "trimmedColumns (snd (cleanedRowsOf opts original)) = 0
   \<and> paddedColumns (snd (cleanedRowsOf opts original)) = 0"
  by (simp add: cleanedRowsOf_def cleanRowsLoop_others initialStats_def)

text \<open>
  C4. With \<open>fixColumns\<close> on, let \<open>row0 # others\<close> be the rows that survive empty-row
  removal. Step 3 turns them into \<open>finalRows\<close>: a row longer than \<open>row0\<close> is cut to its first
  \<open>length row0\<close> cells, a shorter row gets empty strings appended up to that length, a row
  of that length is left as it is. \<open>trimmedColumns\<close> is the number of longer rows,
  \<open>paddedColumns\<close> the number of shorter rows, and with the unchanged rows they add up to
  the number of surviving rows. Every row of the cleaned grid has the length of \<open>row0\<close>.
\<close>

theorem fixColumns_reconciles:
  assumes "originalData s = Some original" and "fixColumns opts"
    and "cleanedRowsOf opts original = (row0 # others, st0)"
  shows "\<exists>finalRows st1 data st.
           fixColumnCounts opts (row0 # others) st0 = Inr (finalRows, st1)
         \<and> finalRows =
             map (\<lambda>row. if length row0 < length row then take (length row0) row
                        else if length row < length row0
                        then row @ replicate (length row0 - length row) []
                        else row)
               (row0 # others)
         \<and> cleanData toLowerCase opts s =
             (Inr (), s\<lparr>cleanedData := Some data, rowsAfter := length data, lastStats := Some st\<rparr>)
         \<and> (\<forall>row \<in> set data. length row = length row0)
         \<and> trimmedColumns st = length (filter (\<lambda>row. length row0 < length row) (row0 # others))
         \<and> paddedColumns st = length (filter (\<lambda>row. length row < length row0) (row0 # others))
         \<and> trimmedColumns st + paddedColumns st
             + length (filter (\<lambda>row. length row = length row0) (row0 # others))
           = length (row0 # others)"
proof -
  let ?n = "length row0"
  let ?fix = "\<lambda>row. if ?n < length row then take ?n row
                    else if length row < ?n then row @ replicate (?n - length row) [] else row"
  let ?loop = "fixColumnsLoop ?n (row0 # others) [] st0"
  define finalRows where "finalRows = map ?fix (row0 # others)"
  define st1 where "st1 = snd ?loop"
  have "(\<lambda>row. take ?n row @ replicate (?n - length row) []) = ?fix"
    by (rule ext) simp
  then have rows: "fst ?loop = finalRows"
    unfolding finalRows_def fixColumnsLoop_rows by simp
  have fcc: "fixColumnCounts opts (row0 # others) st0 = Inr (finalRows, st1)"
    using assms(2) rows by (simp add: fixColumnCounts_def st1_def prod_eq_iff)
  have len: "\<forall>row \<in> set finalRows. length row = ?n"
    by (auto simp: finalRows_def)
  have st0: "trimmedColumns st0 = 0" "paddedColumns st0 = 0"
    using cleanedRowsOf_no_column_stats [of opts original] assms(3) by simp_all
  have st1: "trimmedColumns st1 = length (filter (\<lambda>row. ?n < length row) (row0 # others))"
      "paddedColumns st1 = length (filter (\<lambda>row. length row < ?n) (row0 # others))"
    using st0 by (simp_all add: st1_def fixColumnsLoop_stats)
  obtain header rest where fr: "finalRows = header # rest"
    by (auto simp: finalRows_def)
  define finalRows' where "finalRows' =
     (if normalizeHeader opts
      then map (\<lambda>cell. normalizeHeaderValue toLowerCase (JString cell)) header # rest
      else finalRows)"
  have norm: "normalizeHeaderRow toLowerCase opts finalRows = Inr finalRows'"
    by (simp add: normalizeHeaderRow_def finalRows'_def fr)
  have len': "\<forall>row \<in> set finalRows'. length row = ?n"
    using len by (auto simp: finalRows'_def fr)
  have ne: "finalRows' \<noteq> []"
    by (simp add: finalRows'_def fr)
  obtain data st where d: "dedupeRows opts finalRows' st1 = Inr (data, st)"
    using ne by (cases finalRows'; cases "dedupeRows opts finalRows' st1")
                (auto simp: dedupeRows_def split: if_splits)
  have sub: "set data \<subseteq> set finalRows'" "trimmedColumns st = trimmedColumns st1"
      "paddedColumns st = paddedColumns st1"
    using dedupeRows_subset [OF d] by simp_all
  have run: "cleanData toLowerCase opts s =
      (Inr (), s\<lparr>cleanedData := Some data, rowsAfter := length data, lastStats := Some st\<rparr>)"
    by (rule cleanData_stages [OF assms(1) assms(3) fcc norm d])
  have "\<forall>row \<in> set data. length row = ?n"
    using sub(1) len' by blast
  moreover have "trimmedColumns st + paddedColumns st
             + length (filter (\<lambda>row. length row = ?n) (row0 # others)) = length (row0 # others)"
    unfolding sub st1 by (rule length_partition3)
  ultimately have "fixColumnCounts opts (row0 # others) st0 = Inr (finalRows, st1)
         \<and> finalRows = map ?fix (row0 # others)
         \<and> cleanData toLowerCase opts s =
             (Inr (), s\<lparr>cleanedData := Some data, rowsAfter := length data, lastStats := Some st\<rparr>)
         \<and> (\<forall>row \<in> set data. length row = ?n)
         \<and> trimmedColumns st = length (filter (\<lambda>row. ?n < length row) (row0 # others))
         \<and> paddedColumns st = length (filter (\<lambda>row. length row < ?n) (row0 # others))
         \<and> trimmedColumns st + paddedColumns st
             + length (filter (\<lambda>row. length row = ?n) (row0 # others))
           = length (row0 # others)"
    using fcc run sub st1 finalRows_def by simp
  then show ?thesis by blast
qed

lemma ragged_cleaned:
  "cleanedRowsOf onlyFixColumns raggedGrid =
     ([js ''a'', js ''b'', js ''c''] # [[js ''1'', js ''2''], [js ''3'', js ''4'', js ''5'', js ''6'']],
      initialStats)"
  by (simp add: raggedGrid_def onlyFixColumns_def step_defs string_defs)

theorem fixColumns_reconciles_witness:
  "\<exists>st. cleanData asciiLowerCase onlyFixColumns (parsedState raggedGrid) =
          (Inr (), (parsedState raggedGrid)
             \<lparr>cleanedData := Some [[js ''a'', js ''b'', js ''c''], [js ''1'', js ''2'', []],
                                   [js ''3'', js ''4'', js ''5'']],
              rowsAfter := 3, lastStats := Some st\<rparr>)
        \<and> trimmedColumns st = 1 \<and> paddedColumns st = 1"
proof -
  have h1: "originalData (parsedState raggedGrid) = Some raggedGrid"
    by (simp add: parsedState_def)
  have h2: "fixColumns onlyFixColumns" by (simp add: onlyFixColumns_def)
  obtain finalRows st1 data st where
    f: "fixColumnCounts onlyFixColumns
          ([js ''a'', js ''b'', js ''c''] # [[js ''1'', js ''2''], [js ''3'', js ''4'', js ''5'', js ''6'']])
          initialStats = Inr (finalRows, st1)"
    and r: "cleanData asciiLowerCase onlyFixColumns (parsedState raggedGrid) =
             (Inr (), (parsedState raggedGrid)
                \<lparr>cleanedData := Some data, rowsAfter := length data, lastStats := Some st\<rparr>)"
    and t: "trimmedColumns st = length (filter (\<lambda>row. length [js ''a'', js ''b'', js ''c''] < length row)
                ([js ''a'', js ''b'', js ''c''] # [[js ''1'', js ''2''], [js ''3'', js ''4'', js ''5'', js ''6'']]))"
    and p: "paddedColumns st = length (filter (\<lambda>row. length row < length [js ''a'', js ''b'', js ''c''])
                ([js ''a'', js ''b'', js ''c''] # [[js ''1'', js ''2''], [js ''3'', js ''4'', js ''5'', js ''6'']]))"
    using fixColumns_reconciles [OF h1 h2 ragged_cleaned, of asciiLowerCase] by blast
  have ne: "raggedGrid \<noteq> []" by (simp add: raggedGrid_def)
  have "cleanData asciiLowerCase onlyFixColumns (parsedState raggedGrid) =
          (Inr (), (parsedState raggedGrid)
             \<lparr>cleanedData := Some [[js ''a'', js ''b'', js ''c''], [js ''1'', js ''2'', []],
                                   [js ''3'', js ''4'', js ''5'']],
              rowsAfter := 3,
              lastStats := Some (initialStats\<lparr>trimmedColumns := 1, paddedColumns := 1\<rparr>)\<rparr>)"
    using ne
    by (simp add: cleanData_def parsedState_def ragged_cleaned)
       (simp add: onlyFixColumns_def beforeDedupe_def fixColumnCounts_def normalizeHeaderRow_def
          dedupeRows_def initialStats_def)
  with r t p show ?thesis by (auto simp: parsedState_def)
qed

section \<open>Deduplication is a stable filter on keys\<close>

lemma subseq_nths:
  "subseq (map ((!) xs) (filter P [0..<length xs])) xs"
proof (induction xs rule: rev_induct)
  case Nil
  then show ?case by simp
next
  case (snoc x xs)
  have upto: "[0..<length (xs @ [x])] = [0..<length xs] @ [length xs]"
    by simp
  have old: "map ((!) (xs @ [x])) (filter P [0..<length xs]) = map ((!) xs) (filter P [0..<length xs])"
    by (rule map_cong) (auto simp: nth_append)
  have new: "map ((!) (xs @ [x])) (filter P [length xs]) = (if P (length xs) then [x] else [])"
    by simp
  have "subseq (map ((!) xs) (filter P [0..<length xs]) @ (if P (length xs) then [x] else []))
          (xs @ [x])"
    using snoc.IH by (auto intro: list_emb_append_mono)
  then show ?case
    unfolding upto filter_append map_append old new .
qed

lemma beforeDedupe_no_duplicates:
  assumes "beforeDedupe lc opts (cleanedRowsOf opts original) = Inr (header # others, st)"
  shows "duplicatesRemoved st = 0"
proof -
  obtain row0 others0 where
    c: "cleanedRowsOf opts original = (row0 # others0, snd (cleanedRowsOf opts original))"
    using beforeDedupe_nonempty [OF assms] by blast
  show ?thesis
    using assms beforeDedupe_Cons [of lc opts row0 others0 "snd (cleanedRowsOf opts original)"]
      cleanedRowsOf_no_duplicates [of opts original]
    by (subst (asm) c) auto
qed

text \<open>
  C2, as the code has it. With \<open>dedupe\<close> on, let the earlier steps give \<open>header # others\<close>.
  The row at index \<open>i\<close> of \<open>others\<close> is kept exactly when its key, the cells joined with
  U+0001, is neither the key of \<open>header\<close> nor the key of a row before it; so of the rows
  with one key the first is kept, unless \<open>header\<close> has that key, and every later one is
  dropped. The rows kept stay in their order, and \<open>duplicatesRemoved\<close> is the number of
  rows dropped.
\<close>

theorem dedupe_keeps_first_of_each_key:
  assumes "originalData s = Some original" and "dedupe opts"
    and "beforeDedupe toLowerCase opts (cleanedRowsOf opts original) = Inr (header # others, st)"
  shows "\<exists>kept st'.
           kept = filter (\<lambda>i. rowKey (others ! i) \<notin> rowKey ` set (header # take i others))
                    [0..<length others]
         \<and> cleanData toLowerCase opts s =
             (Inr (), s\<lparr>cleanedData := Some (header # map ((!) others) kept),
                        rowsAfter := Suc (length kept), lastStats := Some st'\<rparr>)
         \<and> subseq (map ((!) others) kept) others
         \<and> duplicatesRemoved st' = length others - length kept
         \<and> length kept \<le> length others"
proof -
  let ?kept = "filter (\<lambda>i. rowKey (others ! i) \<notin> rowKey ` set (header # take i others))
                 [0..<length others]"
  let ?r = "dedupeLoop others {rowKey header} [header] st"
  have rows: "fst ?r = header # map ((!) others) ?kept"
    by (simp add: dedupeLoop_rows)
  have z: "duplicatesRemoved st = 0"
    by (rule beforeDedupe_no_duplicates [OF assms(3)])
  have "duplicatesRemoved (snd ?r) + length (fst ?r) = Suc (length others)"
    using dedupeLoop_balance [of others "{rowKey header}" "[header]" st] z by simp
  then have count: "duplicatesRemoved (snd ?r) = length others - length ?kept"
      "length ?kept \<le> length others"
    by (simp_all add: rows)
  have "cleanData toLowerCase opts s =
      (Inr (), s\<lparr>cleanedData := Some (header # map ((!) others) ?kept),
                 rowsAfter := Suc (length ?kept), lastStats := Some (snd ?r)\<rparr>)"
    using cleanData_dedupe [OF assms] rows by simp
  moreover have "subseq (map ((!) others) ?kept) others"
    by (rule subseq_nths)
  ultimately show ?thesis
    using count by blast
qed

theorem dedupe_keeps_first_of_each_key_witness:
  "\<exists>st'. cleanData asciiLowerCase allOn (parsedState roundTripGrid) =
           (Inr (), (parsedState roundTripGrid)
              \<lparr>cleanedData := Some [[js ''name'', js ''email''], [js ''Alice'', js ''a@x.com'']],
               rowsAfter := 2, lastStats := Some st'\<rparr>)
         \<and> duplicatesRemoved st' = 1"
proof -
  let ?others = "[[js ''Alice'', js ''a@x.com''], [js ''Alice'', js ''a@x.com'']]"
  have h1: "originalData (parsedState roundTripGrid) = Some roundTripGrid"
    by (simp add: parsedState_def)
  have h2: "dedupe allOn" by (simp add: allOn_def)
  have k: "filter (\<lambda>i. rowKey (?others ! i) \<notin> rowKey ` set ([js ''name'', js ''email''] # take i ?others))
             [0..<length ?others] = [0]"
    by (simp add: rowKey_def upt_rec string_defs)
  from dedupe_keeps_first_of_each_key [OF h1 h2 roundTrip_beforeDedupe]
  show ?thesis
    unfolding k by (simp add: numeral_2_eq_2)
qed

text \<open>
  Against C2 as stated: in the sample grid the row \<^verbatim>\<open>["x"]\<close> occurs twice among rows 1 to
  the end of what deduplication receives, and neither occurrence is kept, row 0 being
  \<^verbatim>\<open>["x"]\<close> too.
\<close>

theorem first_occurrence_dropped:
  "beforeDedupe asciiLowerCase onlyDedupe (cleanedRowsOf onlyDedupe repeatedHeaderGrid) =
     Inr ([[js ''x''], [js ''x''], [js ''y''], [js ''x'']], initialStats)
   \<and> cleanData asciiLowerCase onlyDedupe (parsedState repeatedHeaderGrid) =
       (Inr (),
        (parsedState repeatedHeaderGrid)
          \<lparr>cleanedData := Some [[js ''x''], [js ''y'']], rowsAfter := 2,
           lastStats := Some \<lparr>removedEmpty = 0, duplicatesRemoved = 2, trimmedColumns = 0,
                               paddedColumns = 0\<rparr>\<rparr>)"
  by (simp add: repeatedHeader_beforeDedupe repeatedHeader_cleanData)

section \<open>Rows with the same key\<close>

lemma dedupeLoop_append:
  "dedupeLoop (xs @ ys) seen acc st =
     dedupeLoop ys (seen \<union> rowKey ` set xs) (fst (dedupeLoop xs seen acc st))
       (snd (dedupeLoop xs seen acc st))"
  by (induction xs arbitrary: seen acc st) (auto simp: Let_def insert_absorb)

lemma dedupeLoop_counter:
  "dedupeLoop rs seen acc (st\<lparr>duplicatesRemoved := duplicatesRemoved st + 1\<rparr>) =
     (fst (dedupeLoop rs seen acc st),
      (snd (dedupeLoop rs seen acc st))
        \<lparr>duplicatesRemoved := duplicatesRemoved (snd (dedupeLoop rs seen acc st)) + 1\<rparr>)"
proof (rule prod_eqI)
  show "fst (dedupeLoop rs seen acc (st\<lparr>duplicatesRemoved := duplicatesRemoved st + 1\<rparr>)) =
        fst (fst (dedupeLoop rs seen acc st),
             (snd (dedupeLoop rs seen acc st))
               \<lparr>duplicatesRemoved := duplicatesRemoved (snd (dedupeLoop rs seen acc st)) + 1\<rparr>)"
    by (simp add: dedupeLoop_rows)
next
  let ?st1 = "st\<lparr>duplicatesRemoved := duplicatesRemoved st + 1\<rparr>"
  have "fst (dedupeLoop rs seen acc ?st1) = fst (dedupeLoop rs seen acc st)"
    by (simp add: dedupeLoop_rows)
  then have "duplicatesRemoved (snd (dedupeLoop rs seen acc ?st1))
               = duplicatesRemoved (snd (dedupeLoop rs seen acc st)) + 1"
    using dedupeLoop_balance [of rs seen acc ?st1] dedupeLoop_balance [of rs seen acc st]
    by simp
  then show "snd (dedupeLoop rs seen acc ?st1) =
        snd (fst (dedupeLoop rs seen acc st),
             (snd (dedupeLoop rs seen acc st))
               \<lparr>duplicatesRemoved := duplicatesRemoved (snd (dedupeLoop rs seen acc st)) + 1\<rparr>)"
    using dedupeLoop_others [of rs seen acc ?st1] dedupeLoop_others [of rs seen acc st]
    by (intro stats.equality) simp_all
qed

text \<open>
  C10. The key of a row is its cells joined with the one code unit U+0001, so two rows
  that differ can have the same key, as \<^verbatim>\<open>["a\u0001b"]\<close> and \<^verbatim>\<open>["a", "b"]\<close> do. With
  \<open>dedupe\<close> on, a row \<open>r2\<close> that comes after a row \<open>r1\<close> with the same key is dropped and
  counted: the result is that of the grid without \<open>r2\<close>, with one more in
  \<open>duplicatesRemoved\<close>.
\<close>

theorem same_key_row_dropped:
  assumes "dedupe opts" and "rowKey r1 = rowKey r2"
  shows "[js ''a'' @ [SEPARATOR] @ js ''b''] \<noteq> [js ''a'', js ''b'']
       \<and> rowKey [js ''a'' @ [SEPARATOR] @ js ''b''] = rowKey [js ''a'', js ''b'']
       \<and> (\<exists>data st'.
             dedupeRows opts (header # before @ r1 # between @ after) st = Inr (data, st')
           \<and> dedupeRows opts (header # before @ r1 # between @ r2 # after) st =
               Inr (data, st'\<lparr>duplicatesRemoved := duplicatesRemoved st' + 1\<rparr>))"
proof -
  let ?seen = "{rowKey header} \<union> rowKey ` set (before @ r1 # between)"
  let ?mid = "dedupeLoop (before @ r1 # between) {rowKey header} [header] st"
  have k: "rowKey r2 \<in> ?seen"
    using assms(2) by auto
  have without: "dedupeLoop ((before @ r1 # between) @ after) {rowKey header} [header] st
          = dedupeLoop after ?seen (fst ?mid) (snd ?mid)"
    by (rule dedupeLoop_append)
  have "dedupeLoop ((before @ r1 # between) @ r2 # after) {rowKey header} [header] st
          = dedupeLoop (r2 # after) ?seen (fst ?mid) (snd ?mid)"
    by (rule dedupeLoop_append)
  also have "\<dots> = dedupeLoop after ?seen (fst ?mid)
                     ((snd ?mid)\<lparr>duplicatesRemoved := duplicatesRemoved (snd ?mid) + 1\<rparr>)"
    using k by (simp add: Let_def)
  also have "\<dots> = (fst (dedupeLoop after ?seen (fst ?mid) (snd ?mid)),
             (snd (dedupeLoop after ?seen (fst ?mid) (snd ?mid)))
               \<lparr>duplicatesRemoved :=
                  duplicatesRemoved (snd (dedupeLoop after ?seen (fst ?mid) (snd ?mid))) + 1\<rparr>)"
    by (rule dedupeLoop_counter)
  finally have extra: "dedupeLoop ((before @ r1 # between) @ r2 # after) {rowKey header} [header] st
          = (fst (dedupeLoop after ?seen (fst ?mid) (snd ?mid)),
             (snd (dedupeLoop after ?seen (fst ?mid) (snd ?mid)))
               \<lparr>duplicatesRemoved :=
                  duplicatesRemoved (snd (dedupeLoop after ?seen (fst ?mid) (snd ?mid))) + 1\<rparr>)" .
  have "\<exists>data st'.
             dedupeRows opts (header # before @ r1 # between @ after) st = Inr (data, st')
           \<and> dedupeRows opts (header # before @ r1 # between @ r2 # after) st =
               Inr (data, st'\<lparr>duplicatesRemoved := duplicatesRemoved st' + 1\<rparr>)"
    using assms(1) without extra by (simp add: dedupeRows_def prod_eq_iff)
  moreover have "[js ''a'' @ [SEPARATOR] @ js ''b''] \<noteq> [js ''a'', js ''b'']"
    by simp
  moreover have "rowKey [js ''a'' @ [SEPARATOR] @ js ''b''] = rowKey [js ''a'', js ''b'']"
    by (simp add: rowKey_def)
  ultimately show ?thesis by blast
qed

theorem same_key_row_dropped_witness:
  "rowKey [js ''a'', js ''b''] = rowKey [js ''a'' @ [SEPARATOR] @ js ''b'']
   \<and> cleanData asciiLowerCase onlyDedupe (parsedState collisionGrid) =
       (Inr (),
        (parsedState collisionGrid)
          \<lparr>cleanedData := Some [[js ''k''], [js ''a'', js ''b'']], rowsAfter := 2,
           lastStats := Some \<lparr>removedEmpty = 0, duplicatesRemoved = 1, trimmedColumns = 0,
                               paddedColumns = 0\<rparr>\<rparr>)"
proof -
  have h1: "dedupe onlyDedupe" by (simp add: onlyDedupe_def)
  have h2: "rowKey [js ''a'', js ''b''] = rowKey [js ''a'' @ [SEPARATOR] @ js ''b'']"
    by (simp add: rowKey_def)
  have without: "dedupeRows onlyDedupe ([js ''k''] # [] @ [js ''a'', js ''b''] # [] @ []) initialStats
          = Inr ([[js ''k''], [js ''a'', js ''b'']], initialStats)"
    by (simp add: dedupeRows_def onlyDedupe_def rowKey_def string_defs)
  have d: "dedupeRows onlyDedupe
             ([js ''k''] # [] @ [js ''a'', js ''b''] # [] @ [js ''a'' @ [SEPARATOR] @ js ''b''] # [])
             initialStats
           = Inr ([[js ''k''], [js ''a'', js ''b'']],
                  initialStats\<lparr>duplicatesRemoved := duplicatesRemoved initialStats + 1\<rparr>)"
    using same_key_row_dropped [OF h1 h2, of "[js ''k'']" "[]" "[]" "[]" initialStats] without
    by auto
  have c: "fst (cleanedRowsOf onlyDedupe collisionGrid) \<noteq> []"
    by (simp add: collisionGrid_def onlyDedupe_def step_defs string_defs)
  have b: "beforeDedupe asciiLowerCase onlyDedupe (cleanedRowsOf onlyDedupe collisionGrid)
           = Inr ([[js ''k''], [js ''a'', js ''b''], [js ''a'' @ SEPARATOR # js ''b'']], initialStats)"
    by (simp add: collisionGrid_def onlyDedupe_def step_defs string_defs)
  have ne: "collisionGrid \<noteq> []" by (simp add: collisionGrid_def)
  have "cleanData asciiLowerCase onlyDedupe (parsedState collisionGrid) =
       (Inr (),
        (parsedState collisionGrid)
          \<lparr>cleanedData := Some [[js ''k''], [js ''a'', js ''b'']], rowsAfter := 2,
           lastStats := Some (initialStats\<lparr>duplicatesRemoved := duplicatesRemoved initialStats + 1\<rparr>)\<rparr>)"
    using ne c d by (simp add: cleanData_def parsedState_def b Let_def)
  then show ?thesis
    using h2 by (simp add: initialStats_def)
qed

section \<open>Header normalization is idempotent\<close>

lemma wordChar_not_whiteSpace: "isWordChar c \<Longrightarrow> \<not> isWhiteSpace c"
  unfolding isWordChar_def isWhiteSpace_def UNDERSCORE_def
  by (auto simp: word_le_nat_alt)

lemma wordChar_not_upper: "isWordChar c \<Longrightarrow> \<not> (0x41 \<le> c \<and> c \<le> 0x5A)"
  unfolding isWordChar_def UNDERSCORE_def
  by (auto simp: word_le_nat_alt)

lemma asciiLowerCase_wordChars: "list_all isWordChar s \<Longrightarrow> asciiLowerCase s = s"
  unfolding asciiLowerCase_def
  by (induction s) (auto dest: wordChar_not_upper)

lemma dropWhile_none: "\<forall>c \<in> set s. \<not> p c \<Longrightarrow> dropWhile p s = s"
  by (cases s) auto

lemma stripEnd_prefix: "s = stripEnd p s @ rev (takeWhile p (rev s))"
proof -
  have "rev (takeWhile p (rev s) @ dropWhile p (rev s)) = s" by simp
  then show ?thesis
    unfolding stripEnd_def rev_append by (rule sym)
qed

lemma stripBoth_none: "\<forall>c \<in> set s. \<not> p c \<Longrightarrow> stripBoth p s = s"
  by (simp add: stripBoth_def stripEnd_def dropWhile_none)

lemma set_stripBoth: "set (stripBoth p s) \<subseteq> set s"
proof -
  have "set (stripEnd p t) \<subseteq> set t" for t
    using set_dropWhileD [of _ p "rev t"] by (auto simp: stripEnd_def)
  moreover have "set (dropWhile p s) \<subseteq> set s"
    using set_dropWhileD by fastforce
  ultimately show ?thesis
    unfolding stripBoth_def by blast
qed

lemma stripEnd_hd:
  assumes "stripEnd p t \<noteq> []"
  shows "t \<noteq> [] \<and> hd (stripEnd p t) = hd t"
proof -
  obtain a l where c: "stripEnd p t = a # l"
    using assms by (cases "stripEnd p t") auto
  have "t = stripEnd p t @ rev (takeWhile p (rev t))"
    by (rule stripEnd_prefix)
  then have "t = a # (l @ rev (takeWhile p (rev t)))"
    by (simp add: c)
  then obtain u where "t = a # u" ..
  then show ?thesis
    using c by auto
qed

lemma stripBoth_idem: "stripBoth p (stripBoth p s) = stripBoth p s"
proof -
  let ?d = "dropWhile p s"
  let ?y = "stripEnd p ?d"
  have front: "dropWhile p ?y = ?y"
  proof (cases "?y = []")
    case True
    then show ?thesis by simp
  next
    case False
    then have "?d \<noteq> []" and "hd ?y = hd ?d"
      using stripEnd_hd [of p ?d] by simp_all
    then have "\<not> p (hd ?y)"
      using hd_dropWhile [of p s] by simp
    then show ?thesis
      by (simp add: dropWhile_eq_self_iff)
  qed
  have "stripEnd p ?y = ?y"
    by (simp add: stripEnd_def)
  with front show ?thesis
    by (simp add: stripBoth_def)
qed

lemma replaceRuns_none: "\<forall>c \<in> set s. \<not> p c \<Longrightarrow> replaceRuns p r s = s"
  by (induction s) auto

lemma set_replaceRuns: "set (replaceRuns p r s) \<subseteq> set s \<union> set r"
proof (induction p r s rule: replaceRuns.induct)
  case (1 p r)
  then show ?case by simp
next
  case (2 p r c s)
  have "set (dropWhile p s) \<subseteq> set s"
    using set_dropWhileD by fastforce
  with 2 show ?case
    by (cases "p c") auto
qed

lemma noUnderscoreRun_tail: "noUnderscoreRun (a # t) \<Longrightarrow> noUnderscoreRun t"
  by (cases t) auto

lemma noUnderscoreRun_append:
  "noUnderscoreRun (s @ t) \<Longrightarrow> noUnderscoreRun s \<and> noUnderscoreRun t"
  by (induction s rule: noUnderscoreRun.induct) (auto dest: noUnderscoreRun_tail)

lemma noUnderscoreRun_stripBoth:
  assumes "noUnderscoreRun s"
  shows "noUnderscoreRun (stripBoth p s)"
proof -
  have "noUnderscoreRun (takeWhile p s @ dropWhile p s)"
    using assms by simp
  then have "noUnderscoreRun (dropWhile p s)"
    by (rule noUnderscoreRun_append [THEN conjunct2])
  then have "noUnderscoreRun (stripEnd p (dropWhile p s) @ rev (takeWhile p (rev (dropWhile p s))))"
    using stripEnd_prefix [of "dropWhile p s" p] by simp
  then have "noUnderscoreRun (stripEnd p (dropWhile p s))"
    by (rule noUnderscoreRun_append [THEN conjunct1])
  then show ?thesis
    by (simp add: stripBoth_def)
qed

lemma collapse_noUnderscoreRun:
  "noUnderscoreRun (replaceRuns (\<lambda>c. c = UNDERSCORE) [UNDERSCORE] s)"
proof (induction "\<lambda>c. c = UNDERSCORE" "[UNDERSCORE]" s rule: replaceRuns.induct)
  case 1
  then show ?case by simp
next
  case (2 c s)
  show ?case
  proof (cases "c = UNDERSCORE")
    case True
    let ?d = "dropWhile (\<lambda>c. c = UNDERSCORE) s"
    have ih: "noUnderscoreRun (replaceRuns (\<lambda>c. c = UNDERSCORE) [UNDERSCORE] ?d)"
      using 2 True by simp
    show ?thesis
    proof (cases ?d)
      case Nil
      then show ?thesis using True by (simp del: dropWhile_eq_Nil_conv)
    next
      case (Cons e t)
      then have "e \<noteq> UNDERSCORE"
        using hd_dropWhile [of "\<lambda>c. c = UNDERSCORE" s] by auto
      then show ?thesis
        using True ih Cons by simp
    qed
  next
    case False
    then have ih: "noUnderscoreRun (replaceRuns (\<lambda>c. c = UNDERSCORE) [UNDERSCORE] s)"
      using 2 by simp
    show ?thesis
      using False ih
      by (cases "replaceRuns (\<lambda>c. c = UNDERSCORE) [UNDERSCORE] s") auto
  qed
qed

lemma collapse_fixed:
  "noUnderscoreRun s \<Longrightarrow> replaceRuns (\<lambda>c. c = UNDERSCORE) [UNDERSCORE] s = s"
  by (induction s rule: noUnderscoreRun.induct) auto

lemma wordChars_map:
  "list_all isWordChar (map (\<lambda>c. if isWordChar c then c else UNDERSCORE) s)"
  by (induction s) (simp_all add: isWordChar_def)

lemma wordChars_collapse:
  assumes "list_all isWordChar w"
  shows "list_all isWordChar (replaceRuns (\<lambda>c. c = UNDERSCORE) [UNDERSCORE] w)"
proof -
  have "isWordChar UNDERSCORE"
    by (simp add: isWordChar_def)
  then show ?thesis
    using assms set_replaceRuns [of "\<lambda>c. c = UNDERSCORE" "[UNDERSCORE]" w]
    by (auto simp: list_all_iff)
qed

lemma wordChars_stripBoth:
  "list_all isWordChar z \<Longrightarrow> list_all isWordChar (stripBoth p z)"
  using set_stripBoth [of p z] by (auto simp: list_all_iff)

text \<open>
  C8. \<^verbatim>\<open>normalizeHeaderValue\<close> applied to its own result gives that result again, for every
  string, whenever \<^verbatim>\<open>toLowerCase\<close> leaves the strings over \<^verbatim>\<open>[a-z0-9_]\<close> as they are.
\<close>

theorem normalizeHeaderValue_idempotent:
  assumes "\<And>s. list_all isWordChar s \<Longrightarrow> toLowerCase s = s"
  shows "normalizeHeaderValue toLowerCase (JString (normalizeHeaderValue toLowerCase (JString x)))
           = normalizeHeaderValue toLowerCase (JString x)"
proof -
  define y where "y = normalizeHeaderValue toLowerCase (JString x)"
  let ?us = "\<lambda>c. c = UNDERSCORE"
  have shape: "list_all isWordChar y \<and> noUnderscoreRun y \<and> stripBoth ?us y = y"
  proof (cases "toLowerCase (js_trim x) = []")
    case True
    then show ?thesis
      by (simp add: y_def normalizeHeaderValue_def stripBoth_def stripEnd_def)
  next
    case False
    let ?w = "map (\<lambda>c. if isWordChar c then c else UNDERSCORE)
                (replaceRuns isWhiteSpace [UNDERSCORE] (toLowerCase (js_trim x)))"
    let ?z = "replaceRuns ?us [UNDERSCORE] ?w"
    have y: "y = stripBoth ?us ?z"
      using False by (simp add: y_def normalizeHeaderValue_def)
    have "list_all isWordChar y"
      unfolding y by (intro wordChars_stripBoth wordChars_collapse wordChars_map)
    moreover have "noUnderscoreRun y"
      unfolding y by (intro noUnderscoreRun_stripBoth collapse_noUnderscoreRun)
    moreover have "stripBoth ?us y = y"
      unfolding y by (rule stripBoth_idem)
    ultimately show ?thesis
      by blast
  qed
  then have w: "\<forall>c \<in> set y. \<not> isWhiteSpace c"
    by (auto simp: list_all_iff dest: wordChar_not_whiteSpace)
  have t: "js_trim y = y"
    using w by (simp add: js_trim_def stripBoth_none)
  have l: "toLowerCase y = y"
    by (rule assms) (use shape in blast)
  have r: "replaceRuns isWhiteSpace [UNDERSCORE] y = y"
    using w by (rule replaceRuns_none)
  have m: "map (\<lambda>c. if isWordChar c then c else UNDERSCORE) y = y"
    by (rule map_idI) (use shape in \<open>simp add: list_all_iff\<close>)
  have c: "replaceRuns ?us [UNDERSCORE] y = y"
    using shape by (simp add: collapse_fixed)
  have "normalizeHeaderValue toLowerCase (JString y) = y"
    using shape by (simp add: normalizeHeaderValue_def t l r m c)
  then show ?thesis
    unfolding y_def .
qed

theorem normalizeHeaderValue_idempotent_witness:
  "normalizeHeaderValue asciiLowerCase (JString (js '' First  Name! '')) = js ''first_name''
   \<and> normalizeHeaderValue asciiLowerCase
        (JString (normalizeHeaderValue asciiLowerCase (JString (js '' First  Name! ''))))
      = js ''first_name''"
proof -
  have "normalizeHeaderValue asciiLowerCase (JString (js '' First  Name! '')) = js ''first_name''"
    by (simp add: normalizeHeaderValue_def asciiLowerCase_def string_defs)
  then show ?thesis
    using normalizeHeaderValue_idempotent [of asciiLowerCase "js '' First  Name! ''", OF asciiLowerCase_wordChars]
    by simp
qed

section \<open>The choice of the encoding\<close>

lemma tryEncodings_append:
  "tryEncodings decode buffer (encs @ encs') b =
     tryEncodings decode buffer encs' (tryEncodings decode buffer encs b)"
  by (induction encs arbitrary: b) (auto split: option.splits)

lemma tryEncodings_above:
  assumes "enat n < replacementCount b"
    and "\<And>e t'. e \<in> set encs \<Longrightarrow> decode e buffer = Some t' \<Longrightarrow> n < countReplacements t'"
  shows "enat n < replacementCount (tryEncodings decode buffer encs b)"
  using assms
proof (induction encs arbitrary: b)
  case Nil
  then show ?case by simp
next
  case (Cons e encs)
  have ih: "enat n < replacementCount (tryEncodings decode buffer encs b')"
    if "enat n < replacementCount b'" for b'
    using that Cons.prems(2) by (intro Cons.IH) auto
  show ?case
  proof (cases "decode e buffer")
    case None
    then show ?thesis
      using ih [OF Cons.prems(1)] by simp
  next
    case (Some t')
    then have "n < countReplacements t'"
      using Cons.prems(2) [of e t'] by simp
    then show ?thesis
      using Some ih [OF Cons.prems(1)]
        ih [of "\<lparr>text' = t', encoding = e, replacementCount = enat (countReplacements t')\<rparr>"]
      by simp
  qed
qed

lemma tryEncodings_unchanged:
  assumes "\<And>e t'. e \<in> set encs \<Longrightarrow> decode e buffer = Some t'
             \<Longrightarrow> replacementCount b \<le> enat (countReplacements t')"
  shows "tryEncodings decode buffer encs b = b"
  using assms
proof (induction encs)
  case Nil
  then show ?case by simp
next
  case (Cons e encs)
  have ih: "tryEncodings decode buffer encs b = b"
    using Cons.prems by (intro Cons.IH) auto
  show ?case
  proof (cases "decode e buffer")
    case None
    then show ?thesis
      using ih by simp
  next
    case (Some t')
    then have "\<not> enat (countReplacements t') < replacementCount b"
      using Cons.prems [of e t'] by (simp add: not_less)
    then show ?thesis
      using Some ih by simp
  qed
qed

text \<open>The candidate that is chosen: strictly fewer markers than each earlier one, no more than each later one.\<close>

lemma tryEncodings_first_least:
  assumes "decode enc buffer = Some t"
    and "enat (countReplacements t) < replacementCount b"
    and "\<And>e t'. e \<in> set earlier \<Longrightarrow> decode e buffer = Some t'
           \<Longrightarrow> countReplacements t < countReplacements t'"
    and "\<And>e t'. e \<in> set later \<Longrightarrow> decode e buffer = Some t'
           \<Longrightarrow> countReplacements t \<le> countReplacements t'"
  shows "tryEncodings decode buffer (earlier @ enc # later) b =
           \<lparr>text' = t, encoding = enc, replacementCount = enat (countReplacements t)\<rparr>"
proof -
  let ?b1 = "tryEncodings decode buffer earlier b"
  let ?b2 = "\<lparr>text' = t, encoding = enc, replacementCount = enat (countReplacements t)\<rparr>"
  have "enat (countReplacements t) < replacementCount ?b1"
    using assms(2,3) by (rule tryEncodings_above)
  then have "tryEncodings decode buffer (enc # later) ?b1 = tryEncodings decode buffer later ?b2"
    using assms(1) by simp
  also have "\<dots> = ?b2"
    using assms(4) by (intro tryEncodings_unchanged) simp
  finally show ?thesis
    by (simp add: tryEncodings_append)
qed

text \<open>
  C3. On a platform with \<^verbatim>\<open>TextDecoder\<close>, let the decoding \<open>t\<close> of the buffer under the
  candidate \<open>enc\<close> have strictly fewer U+FFFD than the decoding under each earlier candidate
  of \<^verbatim>\<open>['utf-8', 'windows-1252', 'iso-8859-1']\<close> and no more than under each later one.
  Then \<open>enc\<close> is chosen: the result is \<open>t\<close> without a BOM at position 0, with the label
  \<open>enc\<close> and the count of \<open>t\<close>. The empty text is decoded once more as UTF-8 (line 193), so
  for \<open>t\<close> empty the UTF-8 decoding of the buffer has to be empty too, as it is for the
  decoders of a browser, where only the empty buffer has an empty single-byte decoding.
  In particular a buffer whose UTF-8 decoding has no U+FFFD is decoded as UTF-8, whatever
  the other candidates give.
\<close>

theorem resolver_selects_fewest_markers:
  assumes "encodingsToTry = earlier @ enc # later"
    and "decode enc buffer = Some t"
    and "\<And>e t'. e \<in> set earlier \<Longrightarrow> decode e buffer = Some t'
           \<Longrightarrow> countReplacements t < countReplacements t'"
    and "\<And>e t'. e \<in> set later \<Longrightarrow> decode e buffer = Some t'
           \<Longrightarrow> countReplacements t \<le> countReplacements t'"
    and "t = [] \<Longrightarrow> decode ''utf-8'' buffer = Some []"
  shows "readFileWithBestEncoding (TextDecoder decode) buffer =
           Inr \<lparr>text' = stripLeadingBOM t, encoding = enc,
                replacementCount = enat (countReplacements t)\<rparr>
       \<and> (\<forall>u. decode ''utf-8'' buffer = Some u \<and> countReplacements u = 0
              \<longrightarrow> readFileWithBestEncoding (TextDecoder decode) buffer =
                    Inr \<lparr>text' = stripLeadingBOM u, encoding = ''utf-8'', replacementCount = 0\<rparr>)"
proof -
  let ?init = "\<lparr>text' = [], encoding = ''utf-8'', replacementCount = \<infinity>\<rparr>"
  have chosen: "tryEncodings decode buffer encodingsToTry ?init =
           \<lparr>text' = t, encoding = enc, replacementCount = enat (countReplacements t)\<rparr>"
    unfolding assms(1)
    using assms(2) _ assms(3,4) by (rule tryEncodings_first_least) simp
  have first: "readFileWithBestEncoding (TextDecoder decode) buffer =
           Inr \<lparr>text' = stripLeadingBOM t, encoding = enc,
                replacementCount = enat (countReplacements t)\<rparr>"
  proof (cases "t = []")
    case False
    then show ?thesis
      by (simp add: readFileWithBestEncoding_def selectBest_def chosen)
  next
    case True
    then have u: "decode ''utf-8'' buffer = Some []"
      by (rule assms(5))
    have "enc = ''utf-8''"
    proof (rule ccontr)
      assume "enc \<noteq> ''utf-8''"
      then have "''utf-8'' \<in> set earlier"
        using assms(1) by (cases earlier) (auto simp: encodingsToTry_def)
      then have "countReplacements t < countReplacements []"
        using u by (rule assms(3))
      then show False
        by (simp add: countReplacements_def)
    qed
    then show ?thesis
      using True u
      by (simp add: readFileWithBestEncoding_def selectBest_def chosen countReplacements_def
            zero_enat_def)
  qed
  have second: "readFileWithBestEncoding (TextDecoder decode) buffer =
                  Inr \<lparr>text' = stripLeadingBOM u, encoding = ''utf-8'', replacementCount = 0\<rparr>"
    if u: "decode ''utf-8'' buffer = Some u" and z: "countReplacements u = 0" for u
  proof -
    have e: "encodingsToTry = [] @ ''utf-8'' # [''windows-1252'', ''iso-8859-1'']"
      by (simp add: encodingsToTry_def)
    have "tryEncodings decode buffer encodingsToTry ?init =
             \<lparr>text' = u, encoding = ''utf-8'', replacementCount = enat (countReplacements u)\<rparr>"
      unfolding e using u by (rule tryEncodings_first_least) (simp_all add: z)
    then show ?thesis
      using u z
      by (auto simp: readFileWithBestEncoding_def selectBest_def zero_enat_def Let_def)
  qed
  from first second show ?thesis
    by blast
qed

lemma decodeUtf8_E9_80: "decodeUtf8 [0xE9, 0x80] = [REPLACEMENT]"
  by (simp add: decodeUtf8_def utf16_def REPLACEMENT_def)

lemma decode1252_E9_80: "decode1252 [0xE9, 0x80] = [0xE9, 0x20AC]"
  by (simp add: decode1252_def index1252_def)

theorem resolver_selects_fewest_markers_witness:
  "readFileWithBestEncoding browser [0xE9, 0x80] =
     Inr \<lparr>text' = [0xE9, 0x20AC], encoding = ''windows-1252'', replacementCount = 0\<rparr>"
proof -
  have h1: "encodingsToTry = [''utf-8''] @ ''windows-1252'' # [''iso-8859-1'']"
    by (simp add: encodingsToTry_def)
  have h2: "browserDecode ''windows-1252'' [0xE9, 0x80] = Some [0xE9, 0x20AC]"
    by (simp add: browserDecode_def decode1252_E9_80)
  have c: "countReplacements [0xE9, 0x20AC] = 0"
    by (simp add: countReplacements_def REPLACEMENT_def)
  have h3: "countReplacements [0xE9, 0x20AC] < countReplacements t'"
    if "e \<in> set [''utf-8'']" and "browserDecode e [0xE9, 0x80] = Some t'" for e t'
    using that by (auto simp: browserDecode_def decodeUtf8_E9_80 countReplacements_def REPLACEMENT_def)
  have h4: "countReplacements [0xE9, 0x20AC] \<le> countReplacements t'"
    if "e \<in> set [''iso-8859-1'']" and "browserDecode e [0xE9, 0x80] = Some t'" for e t'
    by (simp add: c)
  have h5: "[0xE9, 0x20AC] = ([] :: jsstring) \<Longrightarrow> browserDecode ''utf-8'' [0xE9, 0x80] = Some []"
    by simp
  from resolver_selects_fewest_markers [of earlier enc later browserDecode "[0xE9, 0x80]" "[0xE9, 0x20AC]" for earlier enc later, OF h1 h2 h3 h4 h5]
  show ?thesis
    by (simp add: browser_def c BOM_def zero_enat_def)
qed

text \<open>
  With the decoders of a browser the hypothesis on the empty text holds for every buffer:
  a single-byte decoding is empty only for the empty buffer.
\<close>

lemma browserDecode_empty:
  assumes "e \<in> set encodingsToTry" and "browserDecode e buffer = Some []"
  shows "browserDecode ''utf-8'' buffer = Some []"
proof (cases "e = ''utf-8''")
  case True
  then show ?thesis using assms(2) by simp
next
  case False
  then have "decode1252 buffer = []"
    using assms by (auto simp: encodingsToTry_def browserDecode_def)
  then have "buffer = []"
    by (simp add: decode1252_def)
  then show ?thesis
    by (simp add: browserDecode_def decodeUtf8_def)
qed

section \<open>The BOM of the decoded text\<close>

text \<open>
  C7, as the code has it. After the choice, the code unit at position 0 is removed when it
  is U+FEFF, and nothing else is. So when one buffer is decoded to \<open>BOM # t\<close> and another
  to \<open>t\<close>, the first gives the text \<open>t\<close> and the second \<open>t\<close> without a leading BOM: the
  two texts are the same exactly when \<open>t\<close> does not begin with U+FEFF itself.
\<close>

theorem bom_stripped_once:
  assumes "selectBest decode buffer1 = Inr b1" and "text' b1 = BOM # t"
    and "selectBest decode buffer2 = Inr b2" and "text' b2 = t"
  shows "\<exists>r1 r2.
           readFileWithBestEncoding (TextDecoder decode) buffer1 = Inr r1
         \<and> readFileWithBestEncoding (TextDecoder decode) buffer2 = Inr r2
         \<and> text' r1 = t
         \<and> text' r2 = stripLeadingBOM t
         \<and> (text' r1 = text' r2 \<longleftrightarrow> (\<forall>t'. t \<noteq> BOM # t'))"
proof -
  have "stripLeadingBOM t = t \<longleftrightarrow> (\<forall>t'. t \<noteq> BOM # t')"
    by (cases t) auto
  then show ?thesis
    using assms by (auto simp: readFileWithBestEncoding_def)
qed

lemma decodeUtf8_bom2_a:
  "decodeUtf8 [0xEF, 0xBB, 0xBF, 0xEF, 0xBB, 0xBF, 0x61] = [BOM, 0x61]"
  by (simp add: decodeUtf8_def utf16_def BOM_def)

lemma decodeUtf8_bom1_a:
  "decodeUtf8 [0xEF, 0xBB, 0xBF, 0x61] = [0x61]"
  by (simp add: decodeUtf8_def utf16_def)

lemma decodeUtf8_bom3_a:
  "decodeUtf8 [0xEF, 0xBB, 0xBF, 0xEF, 0xBB, 0xBF, 0xEF, 0xBB, 0xBF, 0x61] = [BOM, BOM, 0x61]"
  by (simp add: decodeUtf8_def utf16_def BOM_def)

lemma utf8_without_markers:
  assumes "countReplacements (decodeUtf8 buffer) = 0" and "decodeUtf8 buffer \<noteq> []"
  shows "selectBest browserDecode buffer =
           Inr \<lparr>text' = decodeUtf8 buffer, encoding = ''utf-8'', replacementCount = 0\<rparr>"
proof -
  have e: "encodingsToTry = [] @ ''utf-8'' # [''windows-1252'', ''iso-8859-1'']"
    by (simp add: encodingsToTry_def)
  have "tryEncodings browserDecode buffer encodingsToTry
          \<lparr>text' = [], encoding = ''utf-8'', replacementCount = \<infinity>\<rparr> =
        \<lparr>text' = decodeUtf8 buffer, encoding = ''utf-8'',
          replacementCount = enat (countReplacements (decodeUtf8 buffer))\<rparr>"
    unfolding e
    by (rule tryEncodings_first_least) (simp_all add: browserDecode_def assms(1))
  then show ?thesis
    using assms by (simp add: selectBest_def zero_enat_def)
qed

theorem bom_stripped_once_witness:
  "readFileWithBestEncoding browser [0xEF, 0xBB, 0xBF, 0xEF, 0xBB, 0xBF, 0x61] =
     Inr \<lparr>text' = [0x61], encoding = ''utf-8'', replacementCount = 0\<rparr>
   \<and> readFileWithBestEncoding browser [0xEF, 0xBB, 0xBF, 0x61] =
     Inr \<lparr>text' = [0x61], encoding = ''utf-8'', replacementCount = 0\<rparr>"
proof -
  let ?b1 = "\<lparr>text' = [BOM, 0x61], encoding = ''utf-8'', replacementCount = 0\<rparr>"
  let ?b2 = "\<lparr>text' = [0x61], encoding = ''utf-8'', replacementCount = 0\<rparr>"
  have s1: "selectBest browserDecode [0xEF, 0xBB, 0xBF, 0xEF, 0xBB, 0xBF, 0x61] = Inr ?b1"
    using utf8_without_markers [of "[0xEF, 0xBB, 0xBF, 0xEF, 0xBB, 0xBF, 0x61]"]
    by (simp add: decodeUtf8_bom2_a countReplacements_def REPLACEMENT_def BOM_def)
  have s2: "selectBest browserDecode [0xEF, 0xBB, 0xBF, 0x61] = Inr ?b2"
    using utf8_without_markers [of "[0xEF, 0xBB, 0xBF, 0x61]"]
    by (simp add: decodeUtf8_bom1_a countReplacements_def REPLACEMENT_def)
  have t1: "text' ?b1 = BOM # [0x61]" and t2: "text' ?b2 = [0x61]"
    by simp_all
  from bom_stripped_once [OF s1 t1 s2 t2] s1 s2
  show ?thesis
    by (simp add: browser_def readFileWithBestEncoding_def BOM_def)
qed

text \<open>
  Against C7 as stated, for the text \<open>t\<close> made of U+FEFF and \<^verbatim>\<open>a\<close>: the file with three
  BOMs is decoded to \<open>BOM # t\<close>, the decoder itself dropping the first, and the file with
  two is decoded to \<open>t\<close>; the code gives \<open>t\<close> for the first and \<^verbatim>\<open>a\<close> for the second.
\<close>

theorem bom_text_counterexample:
  "selectBest browserDecode [0xEF, 0xBB, 0xBF, 0xEF, 0xBB, 0xBF, 0xEF, 0xBB, 0xBF, 0x61] =
     Inr \<lparr>text' = BOM # [BOM, 0x61], encoding = ''utf-8'', replacementCount = 0\<rparr>
   \<and> selectBest browserDecode [0xEF, 0xBB, 0xBF, 0xEF, 0xBB, 0xBF, 0x61] =
     Inr \<lparr>text' = [BOM, 0x61], encoding = ''utf-8'', replacementCount = 0\<rparr>
   \<and> readFileWithBestEncoding browser [0xEF, 0xBB, 0xBF, 0xEF, 0xBB, 0xBF, 0xEF, 0xBB, 0xBF, 0x61] =
     Inr \<lparr>text' = [BOM, 0x61], encoding = ''utf-8'', replacementCount = 0\<rparr>
   \<and> readFileWithBestEncoding browser [0xEF, 0xBB, 0xBF, 0xEF, 0xBB, 0xBF, 0x61] =
     Inr \<lparr>text' = [0x61], encoding = ''utf-8'', replacementCount = 0\<rparr>
   \<and> [BOM, 0x61] \<noteq> [0x61 :: cu]"
proof -
  have s3: "selectBest browserDecode [0xEF, 0xBB, 0xBF, 0xEF, 0xBB, 0xBF, 0xEF, 0xBB, 0xBF, 0x61] =
     Inr \<lparr>text' = BOM # [BOM, 0x61], encoding = ''utf-8'', replacementCount = 0\<rparr>"
    using utf8_without_markers [of "[0xEF, 0xBB, 0xBF, 0xEF, 0xBB, 0xBF, 0xEF, 0xBB, 0xBF, 0x61]"]
    by (simp add: decodeUtf8_bom3_a countReplacements_def REPLACEMENT_def BOM_def)
  have s2: "selectBest browserDecode [0xEF, 0xBB, 0xBF, 0xEF, 0xBB, 0xBF, 0x61] =
     Inr \<lparr>text' = [BOM, 0x61], encoding = ''utf-8'', replacementCount = 0\<rparr>"
    using utf8_without_markers [of "[0xEF, 0xBB, 0xBF, 0xEF, 0xBB, 0xBF, 0x61]"]
    by (simp add: decodeUtf8_bom2_a countReplacements_def REPLACEMENT_def BOM_def)
  show ?thesis
    using s3 s2 by (simp add: browser_def readFileWithBestEncoding_def BOM_def)
qed

end
